theory Spec2Isabelle
  imports Main "HOL-Library.Word" "HOL-Library.Sublist"
begin

section \<open>JavaScript strings\<close>

text \<open>
  A JavaScript string is a sequence of UTF-16 code units. The dev server reads the
  artifact with \<^verbatim>\<open>readFileSync(scriptPath, "utf-8")\<close>, so every text the
  strip works on is such a sequence. ASCII literals of the source are written with
  \<open>js\<close>.
\<close>

type_synonym jschar = "16 word"
type_synonym jsstring = "jschar list"

definition js :: "string \<Rightarrow> jsstring" where
  "js s = map of_char s"

definition LF :: jschar where
  "LF = 0x0A"

definition SP :: jschar where
  "SP = 0x20"

text \<open>
  The code units that \<^verbatim>\<open>String.prototype.trimStart\<close> removes: ECMAScript's
  WhiteSpace (TAB, VT, FF, ZWNBSP and the space separators) and LineTerminator
  (LF, CR, LS, PS).
\<close>

definition isWhiteSpace :: "jschar \<Rightarrow> bool" where
  "isWhiteSpace c \<longleftrightarrow>
     c = 0x09 \<or> c = 0x0A \<or> c = 0x0B \<or> c = 0x0C \<or> c = 0x0D \<or> c = 0x20 \<or>
     c = 0xA0 \<or> c = 0x1680 \<or> (0x2000 \<le> c \<and> c \<le> 0x200A) \<or>
     c = 0x2028 \<or> c = 0x2029 \<or> c = 0x202F \<or> c = 0x205F \<or> c = 0x3000 \<or>
     c = 0xFEFF"

definition trimStart :: "jsstring \<Rightarrow> jsstring" where
  "trimStart s = dropWhile isWhiteSpace s"

text \<open>
  \<open>search m s\<close> is the least index at which \<open>m\<close> occurs in \<open>s\<close>, if any.
  \<^verbatim>\<open>s.indexOf(m, pos)\<close> clamps \<open>pos\<close> to the length of \<open>s\<close> and searches from
  there; \<open>None\<close> stands for the result \<open>-1\<close>.
\<close>

fun search :: "'a list \<Rightarrow> 'a list \<Rightarrow> nat option" where
  "search m [] = (if m = [] then Some 0 else None)"
| "search m (c # cs) =
     (if prefix m (c # cs) then Some 0 else map_option Suc (search m cs))"

definition indexOf :: "jsstring \<Rightarrow> jsstring \<Rightarrow> nat \<Rightarrow> nat option" where
  "indexOf s m pos =
     (let k = min pos (length s)
      in map_option (\<lambda>i. k + i) (search m (drop k s)))"

text \<open>\<^verbatim>\<open>s.slice(n)\<close> for a start index \<open>n \<ge> 0\<close> and no end index.\<close>

definition slice :: "jsstring \<Rightarrow> nat \<Rightarrow> jsstring" where
  "slice s n = drop n s"

section \<open>The reload payload (notifyClients, dev-server.ts)\<close>

definition headerEndMarker :: jsstring where
  "headerEndMarker = js ''// ==/UserScript==''"

definition hotReloadMarker :: jsstring where
  "hotReloadMarker = js ''// Hot reload client - injected in development mode''"

definition hotReloadEndMarker :: jsstring where
  "hotReloadEndMarker = js ''})();''"

text \<open>First stage: the header strip (the \<^verbatim>\<open>headerEndIndex\<close> block).\<close>

definition stripHeader :: "jsstring \<Rightarrow> jsstring" where
  "stripHeader scriptContent =
     (case indexOf scriptContent headerEndMarker 0 of
        None \<Rightarrow> scriptContent
      | Some headerEndIndex \<Rightarrow>
          trimStart (slice scriptContent (headerEndIndex + length headerEndMarker)))"

text \<open>Second stage: the strip of the injected client (the \<^verbatim>\<open>hotReloadIndex\<close> block).\<close>

definition stripHotReloadClient :: "jsstring \<Rightarrow> jsstring" where
  "stripHotReloadClient code =
     (case indexOf code hotReloadMarker 0 of
        None \<Rightarrow> code
      | Some hotReloadIndex \<Rightarrow>
          (case indexOf code hotReloadEndMarker hotReloadIndex of
             None \<Rightarrow> code
           | Some hotReloadEndIndex \<Rightarrow>
               trimStart (slice code (hotReloadEndIndex + length hotReloadEndMarker))))"

text \<open>The \<^verbatim>\<open>code\<close> field of the message that notifyClients sends.\<close>

definition reloadCode :: "jsstring \<Rightarrow> jsstring" where
  "reloadCode scriptContent = stripHotReloadClient (stripHeader scriptContent)"

section \<open>The injected client (getHotReloadClient, hot-reload-client.ts)\<close>

text \<open>
  The template interpolates \<^verbatim>\<open>${port}\<close>, which renders the number. Ports are
  integers; an integer below \<open>10^21\<close> in magnitude renders as its decimal numeral,
  with a minus sign when negative.
\<close>

fun digitsOf :: "nat \<Rightarrow> jsstring" where
  "digitsOf n =
     (if n < 10 then [of_nat (48 + n)] else digitsOf (n div 10) @ [of_nat (48 + n mod 10)])"

declare digitsOf.simps [simp del]

definition numberToString :: "int \<Rightarrow> jsstring" where
  "numberToString n = (if n < 0 then js ''-'' @ digitsOf (nat (- n)) else digitsOf (nat n))"

text \<open>Every line of the list is followed by a line feed.\<close>

definition joinLines :: "jsstring list \<Rightarrow> jsstring" where
  "joinLines ls = concat (map (\<lambda>l. l @ [LF]) ls)"

text \<open>The lines of the template after the port line, escapes of the template resolved.\<close>

definition clientBody :: "jsstring list" where
  \<open>clientBody =
    [js ''  let ws;'',
     js ''  let reconnectTimer;'',
     js '''',
     js ''  function connect() {'',
     js ''    try {'',
     js ''      ws = new WebSocket(`ws://localhost:${HOT_RELOAD_PORT}`);'',
     js '''',
     js ''      ws.onopen = () => {'',
     js ''        console.log('[USX] Hot reload connected');'',
     js ''        if (reconnectTimer) {'',
     js ''          clearTimeout(reconnectTimer);'',
     js ''          reconnectTimer = null;'',
     js ''        }'',
     js ''      };'',
     js '''',
     js ''      ws.onmessage = (event) => {'',
     js ''        const data = JSON.parse(event.data);'',
     js '''',
     js ''        if (data.type === 'reload' && data.code) {'',
     js ''          console.log('[USX] Hot reloading userscript...');'',
     js '''',
     js ''          try {'',
     js ''            // Call user-defined cleanup if available'',
     js ''            if (typeof window.__USX_CLEANUP__ === 'function') {'',
     js ''              try {'',
     js ''                window.__USX_CLEANUP__();'',
     js ''              } catch (cleanupError) {'',
     js ''                console.warn('[USX] Cleanup function error:', cleanupError);'',
     js ''              }'',
     js ''            }'',
     js '''',
     js ''            // Execute the new code'',
     js ''            // Using indirect eval to run in global scope'',
     js ''            (0, eval)(data.code);'',
     js '''',
     js ''            console.log('[USX] '' @ [0x2713] @ js '' Hot reload complete');'',
     js ''          } catch (error) {'',
     js ''            console.error('[USX] Hot reload execution error:', error);'',
     js ''          }'',
     js ''        }'',
     js ''      };'',
     js '''',
     js ''      ws.onclose = () => {'',
     js ''        console.log('[USX] Hot reload disconnected, reconnecting...');'',
     js ''        // Reconnect after 1 second'',
     js ''        reconnectTimer = setTimeout(connect, 1000);'',
     js ''      };'',
     js '''',
     js ''      ws.onerror = (error) => {'',
     js ''        console.error('[USX] Hot reload error:', error);'',
     js ''        ws.close();'',
     js ''      };'',
     js ''    } catch (error) {'',
     js ''      console.error('[USX] Failed to connect to hot reload server:', error);'',
     js ''      reconnectTimer = setTimeout(connect, 1000);'',
     js ''    }'',
     js ''  }'',
     js '''',
     js ''  // Start connection'',
     js ''  connect();'',
     js '''',
     js ''  // Cleanup on page unload'',
     js ''  window.addEventListener('beforeunload', () => {'',
     js ''    if (ws) {'',
     js ''      ws.close();'',
     js ''    }'',
     js ''    if (reconnectTimer) {'',
     js ''      clearTimeout(reconnectTimer);'',
     js ''    }'',
     js ''  });'',
     js ''})();'']\<close>

definition getHotReloadClient :: "int \<Rightarrow> jsstring" where
  "getHotReloadClient port =
     [LF] @ js ''// Hot reload client - injected in development mode'' @ [LF] @
     js ''(function() {'' @ [LF] @
     js ''  const HOT_RELOAD_PORT = '' @ numberToString port @ js '';'' @ [LF] @
     joinLines clientBody"

subsection \<open>Occurrences of a marker, stated without the search\<close>

text \<open>
  \<open>firstOccurrence m s pre post\<close>: the text \<open>s\<close> is \<open>pre\<close>, then the marker
  \<open>m\<close>, then \<open>post\<close>, and no occurrence of \<open>m\<close> starts earlier (none lies
  within \<open>pre\<close> followed by all but the last unit of \<open>m\<close>).
  \<open>occursAtMostOnce m s\<close>: no occurrence of \<open>m\<close> starts after the first one.
\<close>

definition firstOccurrence :: "'a list \<Rightarrow> 'a list \<Rightarrow> 'a list \<Rightarrow> 'a list \<Rightarrow> bool" where
  "firstOccurrence m s pre post \<longleftrightarrow> s = pre @ m @ post \<and> \<not> sublist m (pre @ butlast m)"

definition occursAtMostOnce :: "'a list \<Rightarrow> 'a list \<Rightarrow> bool" where
  "occursAtMostOnce m s =
     (case search m s of None \<Rightarrow> True | Some i \<Rightarrow> \<not> sublist m (drop (Suc i) s))"

text \<open>The lines of the client before the closing line, for a given port.\<close>

definition clientHeadLines :: "int \<Rightarrow> jsstring list" where
  "clientHeadLines port =
     [hotReloadMarker, js ''(function() {'',
      js ''  const HOT_RELOAD_PORT = '' @ numberToString port @ js '';'']"

section \<open>The serving endpoint (the createServer callback, dev-server.ts)\<close>

text \<open>
  The callback reads \<^verbatim>\<open>req.url\<close> and the artifact file. The file system is
  modelled by what the two calls return at the time of the request:
  \<^verbatim>\<open>existsSync(scriptPath)\<close> and \<^verbatim>\<open>readFileSync(scriptPath, "utf-8")\<close>, which
  returns the text or throws.
\<close>

datatype ioerror = IOError

record response =
  statusCode :: nat
  headers :: "(string \<times> string) list"
  body :: jsstring

definition serve :: "jsstring \<Rightarrow> bool \<Rightarrow> ioerror + jsstring \<Rightarrow> jsstring \<Rightarrow> response" where
  "serve outFile fileExists fileRead url =
     (if url = js ''/'' @ outFile \<or> url = js ''/'' then
        (if \<not> fileExists then
           \<lparr>statusCode = 404, headers = [(''Content-Type'', ''text/plain'')],
            body = js ''Userscript not found''\<rparr>
         else
           (case fileRead of
              Inr content \<Rightarrow>
                \<lparr>statusCode = 200,
                 headers = [(''Content-Type'', ''text/javascript''),
                            (''Access-Control-Allow-Origin'', ''*'')],
                 body = content\<rparr>
            | Inl err \<Rightarrow>
                \<lparr>statusCode = 500, headers = [(''Content-Type'', ''text/plain'')],
                 body = js ''Error reading userscript''\<rparr>))
      else
        \<lparr>statusCode = 404, headers = [(''Content-Type'', ''text/plain'')],
         body = js ''Not found''\<rparr>)"

text \<open>
  The path of a request, in the words of the specification: the request target up to,
  and without, the first \<^verbatim>\<open>?\<close>, where the query string starts. The callback never
  computes it; it compares \<^verbatim>\<open>req.url\<close>, the whole request target.
\<close>

definition requestPath :: "jsstring \<Rightarrow> jsstring" where
  "requestPath url = takeWhile (\<lambda>c. c \<noteq> 0x3F) url"

section \<open>The broadcast (notifyClients, dev-server.ts)\<close>

text \<open>
  \<^verbatim>\<open>clients\<close> is a \<^verbatim>\<open>Set<WebSocket>\<close>: \<^verbatim>\<open>forEach\<close> visits its members once
  each, in insertion order, so the set is a list of channels with distinct identities.
  \<^verbatim>\<open>readyState\<close> is 0 (connecting), 1 (open), 2 (closing) or 3 (closed). The message
  is \<^verbatim>\<open>JSON.stringify({ type: "reload", code })\<close>, kept symbolic as \<open>Reload code\<close>.
\<close>

record client =
  clientId :: nat
  readyState :: nat

datatype message = Reload jsstring

datatype logline = SentReload nat nat | FailedToRead ioerror

record notified =
  sent :: "(nat \<times> message) list"
  logged :: "logline list"

text \<open>The \<^verbatim>\<open>clients.forEach\<close> loop: one \<^verbatim>\<open>client.send(message)\<close> per open channel.\<close>

definition forEachSend :: "message \<Rightarrow> client list \<Rightarrow> (nat \<times> message) list" where
  "forEachSend message clients =
     foldl (\<lambda>out client. if readyState client = 1 then out @ [(clientId client, message)] else out)
       [] clients"

text \<open>\<^verbatim>\<open>Math.round(code.length / 1024)\<close> rounds half up.\<close>

definition roundKb :: "nat \<Rightarrow> nat" where
  "roundKb n = (n + 512) div 1024"

definition notifyClients :: "ioerror + jsstring \<Rightarrow> client list \<Rightarrow> notified" where
  "notifyClients fileRead clients =
     (case fileRead of
        Inl error \<Rightarrow> \<lparr>sent = [], logged = [FailedToRead error]\<rparr>
      | Inr scriptContent \<Rightarrow>
          (let code = reloadCode scriptContent;
               message = Reload code
           in \<lparr>sent = forEachSend message clients,
               logged = [SentReload (length clients) (roundKb (length code))]\<rparr>))"

section \<open>The metadata header (generateHeader and build, builder.ts)\<close>

text \<open>
  A metadata value is a string or an array of strings; an optional field that is
  \<^verbatim>\<open>undefined\<close> is \<open>None\<close>. \<^verbatim>\<open>resource\<close> is a record of strings, given by its
  entries in the order \<^verbatim>\<open>Object.entries\<close> lists them.
\<close>

datatype mdvalue = Str jsstring | Arr "jsstring list"

datatype RunAt = DocumentStart | DocumentBody | DocumentEnd | DocumentIdle

datatype Sandbox = Raw | JavaScript | DOM

fun runAtText :: "RunAt \<Rightarrow> jsstring" where
  "runAtText DocumentStart = js ''document-start''"
| "runAtText DocumentBody = js ''document-body''"
| "runAtText DocumentEnd = js ''document-end''"
| "runAtText DocumentIdle = js ''document-idle''"

fun sandboxText :: "Sandbox \<Rightarrow> jsstring" where
  "sandboxText Raw = js ''raw''"
| "sandboxText JavaScript = js ''JavaScript''"
| "sandboxText DOM = js ''DOM''"

record UserscriptMetadata =
  name :: jsstring
  namespace :: "jsstring option"
  version :: "jsstring option"
  description :: "jsstring option"
  author :: "jsstring option"
  match :: "mdvalue option"
  exclude :: "mdvalue option"
  include_md :: "mdvalue option"
  grant :: "mdvalue option"
  updateURL :: "jsstring option"
  downloadURL :: "jsstring option"
  supportURL :: "jsstring option"
  icon :: "jsstring option"
  runAt :: "RunAt option"
  require :: "mdvalue option"
  resource :: "(jsstring \<times> jsstring) list option"
  sandbox :: "Sandbox option"
  connect :: "mdvalue option"
  noframes :: "bool option"

text \<open>\<^verbatim>\<open>key.padEnd(12)\<close> pads with spaces up to 12 units and never truncates.\<close>

definition padEnd :: "jsstring \<Rightarrow> nat \<Rightarrow> jsstring" where
  "padEnd s n = s @ replicate (n - length s) SP"

definition metaLine :: "string \<Rightarrow> jsstring \<Rightarrow> jsstring" where
  "metaLine key v = js ''// @'' @ padEnd (js key) 12 @ [SP] @ v"

fun addLine :: "jsstring list \<Rightarrow> string \<Rightarrow> mdvalue option \<Rightarrow> jsstring list" where
  "addLine lines key None = lines"
| "addLine lines key (Some (Arr vs)) = foldl (\<lambda>ls v. ls @ [metaLine key v]) lines vs"
| "addLine lines key (Some (Str v)) = lines @ [metaLine key v]"

text \<open>\<^verbatim>\<open>lines.join(sep)\<close>.\<close>

fun join :: "'a list \<Rightarrow> 'a list list \<Rightarrow> 'a list" where
  "join sep [] = []"
| "join sep [x] = x"
| "join sep (x # y # ys) = x @ sep @ join sep (y # ys)"

text \<open>The array \<^verbatim>\<open>lines\<close> when generateHeader returns.\<close>

definition headerLines :: "UserscriptMetadata \<Rightarrow> jsstring list" where
  "headerLines metadata =
     (let lines = [js ''// ==UserScript==''];
          lines = addLine lines ''name'' (Some (Str (name metadata)));
          lines = addLine lines ''namespace'' (map_option Str (namespace metadata));
          lines = addLine lines ''version'' (map_option Str (version metadata));
          lines = addLine lines ''description'' (map_option Str (description metadata));
          lines = addLine lines ''author'' (map_option Str (author metadata));
          lines = addLine lines ''match'' (match metadata);
          lines = addLine lines ''exclude'' (exclude metadata);
          lines = addLine lines ''include'' (include_md metadata);
          lines = addLine lines ''icon'' (map_option Str (icon metadata));
          lines = addLine lines ''grant'' (grant metadata);
          lines = addLine lines ''require'' (require metadata);
          lines = (case resource metadata of
                     None \<Rightarrow> lines
                   | Some entries \<Rightarrow>
                       foldl (\<lambda>ls (n, url). addLine ls ''resource'' (Some (Str (n @ [SP] @ url))))
                         lines entries);
          lines = addLine lines ''connect'' (connect metadata);
          lines = addLine lines ''run-at'' (map_option (Str \<circ> runAtText) (runAt metadata));
          lines = addLine lines ''sandbox'' (map_option (Str \<circ> sandboxText) (sandbox metadata));
          lines = (if noframes metadata = Some True then lines @ [js ''// @noframes''] else lines);
          lines = addLine lines ''updateURL'' (map_option Str (updateURL metadata));
          lines = addLine lines ''downloadURL'' (map_option Str (downloadURL metadata));
          lines = addLine lines ''supportURL'' (map_option Str (supportURL metadata));
          lines = lines @ [js ''// ==/UserScript=='']
      in lines @ [[]])"

definition generateHeader :: "UserscriptMetadata \<Rightarrow> jsstring" where
  "generateHeader metadata = join [LF] (headerLines metadata)"

text \<open>
  The banner that build hands to the bundler. \<^verbatim>\<open>options.hotReloadPort\<close> is a number
  or \<^verbatim>\<open>undefined\<close>; the client is appended when \<^verbatim>\<open>options.dev && options.hotReloadPort\<close>
  is truthy. The bundler itself (tsdown) is outside the repository.
\<close>

definition buildBanner :: "UserscriptMetadata \<Rightarrow> bool \<Rightarrow> int option \<Rightarrow> jsstring" where
  "buildBanner metadata dev hotReloadPort =
     (let banner = generateHeader metadata
      in case hotReloadPort of
           None \<Rightarrow> banner
         | Some port \<Rightarrow>
             if dev \<and> port \<noteq> 0 then banner @ [LF] @ getHotReloadClient port else banner)"

text \<open>A metadata record with only the required name, \<^verbatim>\<open>{ name: "Test" }\<close>.\<close>

definition testMetadata :: UserscriptMetadata where
  "testMetadata =
     \<lparr>name = js ''Test'', namespace = None, version = None, description = None, author = None,
      match = None, exclude = None, include_md = None, grant = None, updateURL = None,
      downloadURL = None, supportURL = None, icon = None, runAt = None, require = None,
      resource = None, sandbox = None, connect = None, noframes = None\<rparr>"

section \<open>The rebuild coordinator (rebuild, dev-server.ts)\<close>

text \<open>
  Node runs the server on one thread: an activation of the async function
  \<^verbatim>\<open>rebuild\<close> runs without interruption up to its next \<^verbatim>\<open>await\<close>, where it is
  suspended until the awaited promise settles; watcher events and settlements are
  delivered one at a time in between. The state holds the two flags, the suspended
  activations of \<^verbatim>\<open>rebuild\<close> (each waiting for \<^verbatim>\<open>loadConfig\<close> or for
  \<^verbatim>\<open>build\<close>), and the trace of what the activations did. Nothing in the state
  type bounds the number of suspended activations.
\<close>

datatype settled = Resolved | Rejected

datatype task = AwaitLoadConfig | AwaitBuild

datatype action =
    LogRebuilding | CallLoadConfig | CallBuild | LogRebuildComplete | NotifyClients
  | LogBuildFailed

record coordinator =
  rebuilding :: bool
  needsRebuild :: bool
  tasks :: "task list"
  trace :: "action list"

definition initial :: coordinator where
  "initial = \<lparr>rebuilding = False, needsRebuild = False, tasks = [], trace = []\<rparr>"

text \<open>The call \<^verbatim>\<open>rebuild()\<close>, up to its return or its first \<^verbatim>\<open>await\<close>.\<close>

definition rebuild :: "coordinator \<Rightarrow> coordinator" where
  "rebuild s =
     (if rebuilding s then s\<lparr>needsRebuild := True\<rparr>
      else s\<lparr>rebuilding := True,
             tasks := tasks s @ [AwaitLoadConfig],
             trace := trace s @ [LogRebuilding, CallLoadConfig]\<rparr>)"

text \<open>
  The \<^verbatim>\<open>try\<close> block from the point where a suspended activation resumes: it throws
  (the awaited promise was rejected), is suspended again at the next \<^verbatim>\<open>await\<close>, or
  runs to its end.
\<close>

datatype progress = Thrown | Suspended task | Completed

fun tryBlock :: "task \<Rightarrow> settled \<Rightarrow> coordinator \<Rightarrow> progress \<times> coordinator" where
  "tryBlock AwaitLoadConfig Resolved s = (Suspended AwaitBuild, s\<lparr>trace := trace s @ [CallBuild]\<rparr>)"
| "tryBlock AwaitBuild Resolved s =
     (Completed, s\<lparr>trace := trace s @ [LogRebuildComplete, NotifyClients]\<rparr>)"
| "tryBlock t Rejected s = (Thrown, s)"

text \<open>The statements after the \<^verbatim>\<open>try\<close>/\<^verbatim>\<open>catch\<close>.\<close>

definition afterTry :: "coordinator \<Rightarrow> coordinator" where
  "afterTry s =
     (let s1 = s\<lparr>rebuilding := False\<rparr>
      in if needsRebuild s1 then rebuild (s1\<lparr>needsRebuild := False\<rparr>) else s1)"

text \<open>A suspended activation resumes when the promise it awaits settles.\<close>

definition resume :: "task \<Rightarrow> settled \<Rightarrow> coordinator \<Rightarrow> coordinator" where
  "resume t r s =
     (case tryBlock t r s of
        (Suspended t', s') \<Rightarrow> s'\<lparr>tasks := tasks s' @ [t']\<rparr>
      | (Completed, s') \<Rightarrow> afterTry s'
      | (Thrown, s') \<Rightarrow> afterTry (s'\<lparr>trace := trace s' @ [LogBuildFailed]\<rparr>))"

text \<open>
  \<open>FileEvent\<close> is a watcher event (\<^verbatim>\<open>change\<close> or \<^verbatim>\<open>add\<close>), whose handler calls
  \<^verbatim>\<open>rebuild()\<close>. \<open>Settle i r\<close> settles the promise awaited by the suspended
  activation number \<open>i\<close>; there is no such event when there is no such activation.
\<close>

datatype event = FileEvent | Settle nat settled

definition step :: "event \<Rightarrow> coordinator \<Rightarrow> coordinator option" where
  "step e s =
     (case e of
        FileEvent \<Rightarrow> Some (rebuild s)
      | Settle i r \<Rightarrow>
          if i < length (tasks s)
          then Some (resume (tasks s ! i) r (s\<lparr>tasks := take i (tasks s) @ drop (Suc i) (tasks s)\<rparr>))
          else None)"

fun run :: "event list \<Rightarrow> coordinator \<Rightarrow> coordinator option" where
  "run [] s = Some s"
| "run (e # es) s = (case step e s of None \<Rightarrow> None | Some s' \<Rightarrow> run es s')"

text \<open>
  A settlement ends the attempt of an activation unless it is the resolution of
  \<^verbatim>\<open>loadConfig\<close>, after which the activation goes on to \<^verbatim>\<open>build\<close>. \<open>attempts\<close>
  counts the rebuild attempts started, \<open>builds\<close> the calls of \<^verbatim>\<open>build\<close>.
\<close>

fun ends :: "task \<Rightarrow> settled \<Rightarrow> bool" where
  "ends AwaitLoadConfig Resolved = False"
| "ends t r = True"

fun outcomeTrace :: "task \<Rightarrow> settled \<Rightarrow> action list" where
  "outcomeTrace AwaitLoadConfig Resolved = [CallBuild]"
| "outcomeTrace AwaitBuild Resolved = [LogRebuildComplete, NotifyClients]"
| "outcomeTrace t Rejected = [LogBuildFailed]"

definition attempts :: "coordinator \<Rightarrow> nat" where
  "attempts s = count_list (trace s) LogRebuilding"

definition builds :: "coordinator \<Rightarrow> nat" where
  "builds s = count_list (trace s) CallBuild"

text \<open>
  What holds in every state the coordinator reaches, and the attempts that the state
  has started or still owes to a pending request.
\<close>

definition flagsAgree :: "coordinator \<Rightarrow> bool" where
  "flagsAgree s \<longleftrightarrow>
     length (tasks s) \<le> 1 \<and> (rebuilding s \<longleftrightarrow> tasks s \<noteq> []) \<and>
     (needsRebuild s \<longrightarrow> rebuilding s)"

definition owed :: "coordinator \<Rightarrow> nat" where
  "owed s = attempts s + (if needsRebuild s then 1 else 0)"

section \<open>Loading the configuration (loadConfig, builder.ts)\<close>

text \<open>
  \<^verbatim>\<open>loadConfig\<close> checks \<^verbatim>\<open>existsSync(fullPath)\<close> and then evaluates
  \<^verbatim>\<open>await import(`file://${fullPath}`)\<close>. A file is modelled by what its module exports
  when it is evaluated: \<open>Some config\<close> for a configuration with metadata, \<open>None\<close>
  for anything else. The dynamic import is the language's: the host keeps a module map,
  and importing a specifier that was loaded before yields the module of the first load
  (ECMAScript requires the host to give the same result for the same referrer and
  specifier each time; Node keys its map by the resolved URL). Here the referrer is
  always builder.ts and the specifier is the same URL for the same path.
\<close>

datatype loadError = ConfigFileNotFound | InvalidConfig

record 'c runtime =
  files :: "jsstring \<rightharpoonup> 'c option"
  moduleMap :: "jsstring \<rightharpoonup> 'c option"

definition dynamicImport :: "jsstring \<Rightarrow> 'c option \<Rightarrow> 'c runtime \<Rightarrow> 'c option \<times> 'c runtime" where
  "dynamicImport url source rt =
     (case moduleMap rt url of
        Some module \<Rightarrow> (module, rt)
      | None \<Rightarrow> (source, rt\<lparr>moduleMap := (moduleMap rt)(url \<mapsto> source)\<rparr>))"

definition loadConfig :: "jsstring \<Rightarrow> 'c runtime \<Rightarrow> (loadError + 'c) \<times> 'c runtime" where
  "loadConfig fullPath rt =
     (case files rt fullPath of
        None \<Rightarrow> (Inl ConfigFileNotFound, rt)
      | Some source \<Rightarrow>
          (case dynamicImport (js ''file://'' @ fullPath) source rt of
             (None, rt') \<Rightarrow> (Inl InvalidConfig, rt')
           | (Some config, rt') \<Rightarrow> (Inr config, rt')))"

text \<open>The process at start: the file holds a configuration, no module is loaded.\<close>

definition freshRuntime :: "jsstring \<Rightarrow> 'c \<Rightarrow> 'c runtime" where
  "freshRuntime fullPath config =
     \<lparr>files = [fullPath \<mapsto> Some config], moduleMap = Map.empty\<rparr>"

text \<open>The developer saves a new configuration to the file.\<close>

definition editFile :: "jsstring \<Rightarrow> 'c \<Rightarrow> 'c runtime \<Rightarrow> 'c runtime" where
  "editFile fullPath config rt = rt\<lparr>files := (files rt)(fullPath \<mapsto> Some config)\<rparr>"

section \<open>The message handler of the injected client (ws.onmessage, hot-reload-client.ts)\<close>

text \<open>
  The handler runs inside the page. What it calls there is opaque: the cleanup function
  registered as \<^verbatim>\<open>window.__USX_CLEANUP__\<close> (present when its \<^verbatim>\<open>typeof\<close> is
  \<^verbatim>\<open>'function'\<close>) and the indirect \<^verbatim>\<open>eval\<close> of the received code each either return
  or throw. A run of handler code is the list of its effects and the exception that is
  leaving it, if any.
\<close>

datatype 'e call = Returns | Throws 'e

datatype 'e effect =
    ConsoleLog jsstring | ConsoleWarn 'e | ConsoleError 'e
  | CallCleanup | Eval jsstring | WsClose

type_synonym 'e run = "'e effect list \<times> 'e option"

record 'e page =
  cleanup :: "'e call option"
  evalCode :: "jsstring \<Rightarrow> 'e call"

text \<open>One statement with no failure, a call into the page, sequencing, try/catch.\<close>

definition emit :: "'e effect \<Rightarrow> 'e run" where
  "emit eff = ([eff], None)"

definition invoke :: "'e effect \<Rightarrow> 'e call \<Rightarrow> 'e run" where
  "invoke eff r = ([eff], case r of Returns \<Rightarrow> None | Throws x \<Rightarrow> Some x)"

definition andThen :: "'e run \<Rightarrow> 'e run \<Rightarrow> 'e run" where
  "andThen a b = (case snd a of Some x \<Rightarrow> a | None \<Rightarrow> (fst a @ fst b, snd b))"

definition tryCatch :: "'e run \<Rightarrow> ('e \<Rightarrow> 'e run) \<Rightarrow> 'e run" where
  "tryCatch block handler =
     (case snd block of None \<Rightarrow> block | Some x \<Rightarrow> andThen (fst block, None) (handler x))"

text \<open>
  The parsed message. \<^verbatim>\<open>JSON.parse(event.data)\<close> stands before the \<^verbatim>\<open>try\<close>: a text
  that is not JSON makes the handler throw. The server only sends objects with the two
  string fields \<^verbatim>\<open>type\<close> and \<^verbatim>\<open>code\<close>; a string is truthy when it is not empty.
\<close>

datatype 'e received = Malformed 'e | Data jsstring jsstring

fun onmessage :: "'e page \<Rightarrow> 'e received \<Rightarrow> 'e run" where
  "onmessage page (Malformed x) = ([], Some x)"
| "onmessage page (Data type code) =
     (if type = js ''reload'' \<and> code \<noteq> [] then
        andThen (emit (ConsoleLog (js ''[USX] Hot reloading userscript...'')))
          (tryCatch
             (andThen
                (case cleanup page of
                   None \<Rightarrow> ([], None)
                 | Some r \<Rightarrow> tryCatch (invoke CallCleanup r) (\<lambda>cleanupError. emit (ConsoleWarn cleanupError)))
                (andThen (invoke (Eval code) (evalCode page code))
                   (emit (ConsoleLog (js ''[USX] '' @ [0x2713] @ js '' Hot reload complete'')))))
             (\<lambda>error. emit (ConsoleError error)))
      else ([], None))"

text \<open>\<^verbatim>\<open>ws.onerror\<close>, the one handler of the client that closes the channel.\<close>

definition onerror :: "'e \<Rightarrow> 'e run" where
  "onerror error = andThen (emit (ConsoleError error)) (emit WsClose)"

section \<open>Properties of the text search\<close>

lemma search_None_iff: "search m s = None \<longleftrightarrow> \<not> sublist m s"
  by (induction s) (auto simp: sublist_Cons_right)

lemma search_Some_prefix:
  "search m s = Some i \<Longrightarrow> i \<le> length s \<and> prefix m (drop i s)"
proof (induction s arbitrary: i)
  case Nil
  then show ?case by (auto split: if_splits)
next
  case (Cons c cs)
  show ?case
  proof (cases "prefix m (c # cs)")
    case True
    with Cons.prems show ?thesis by simp
  next
    case False
    with Cons.prems obtain k where k: "search m cs = Some k" "i = Suc k"
      by auto
    from Cons.IH[OF k(1)] k(2) show ?thesis by simp
  qed
qed

lemma search_Some_least:
  "search m s = Some i \<Longrightarrow> j < i \<Longrightarrow> \<not> prefix m (drop j s)"
proof (induction s arbitrary: i j)
  case Nil
  then show ?case by (auto split: if_splits)
next
  case (Cons c cs)
  show ?case
  proof (cases "prefix m (c # cs)")
    case True
    with Cons.prems show ?thesis by simp
  next
    case False
    with Cons.prems obtain k where k: "search m cs = Some k" "i = Suc k"
      by auto
    show ?thesis
    proof (cases j)
      case 0
      with False show ?thesis by simp
    next
      case (Suc j')
      with Cons.prems(2) k(2) have "j' < k" by simp
      from Cons.IH[OF k(1) this] Suc show ?thesis by simp
    qed
  qed
qed

lemma search_eqI:
  "i \<le> length s \<Longrightarrow> prefix m (drop i s) \<Longrightarrow> (\<And>j. j < i \<Longrightarrow> \<not> prefix m (drop j s))
   \<Longrightarrow> search m s = Some i"
proof (induction s arbitrary: i)
  case Nil
  then show ?case by simp
next
  case (Cons c cs)
  show ?case
  proof (cases i)
    case 0
    with Cons.prems(2) show ?thesis by simp
  next
    case (Suc k)
    from Cons.prems(3)[of 0] Suc have np: "\<not> prefix m (c # cs)" by simp
    have "search m cs = Some k"
    proof (rule Cons.IH)
      show "k \<le> length cs" using Cons.prems(1) Suc by simp
      show "prefix m (drop k cs)" using Cons.prems(2) Suc by simp
      show "\<not> prefix m (drop j cs)" if "j < k" for j
        using Cons.prems(3)[of "Suc j"] that Suc by simp
    qed
    with np Suc show ?thesis by simp
  qed
qed

lemma prefix_drop_sublist_take:
  "prefix m (drop j s) \<Longrightarrow> sublist m (take (j + length m) s)"
proof -
  assume "prefix m (drop j s)"
  then obtain r where r: "drop j s = m @ r" by (auto simp: prefix_def)
  have "s = take j s @ m @ r" using r by (metis append_take_drop_id)
  then have "take (j + length m) s = take (j + length m) (take j s @ m @ r)" by simp
  also have "\<dots> = take j s @ m"
  proof (cases "j \<le> length s")
    case True then show ?thesis by (simp add: min_def)
  next
    case False
    then have "drop j s = []" by simp
    with r have "m = []" "r = []" by simp_all
    with False show ?thesis by simp
  qed
  finally show ?thesis by (simp add: sublist_def) (metis append_Nil2)
qed

lemma sublist_take_prefix_drop:
  "sublist m t \<Longrightarrow> prefix t s \<Longrightarrow> \<exists>j. j + length m \<le> length t \<and> prefix m (drop j s)"
proof -
  assume "sublist m t" "prefix t s"
  then obtain p q r where "t = p @ m @ q" "s = t @ r" by (auto simp: sublist_def prefix_def)
  then have "drop (length p) s = m @ q @ r" "length p + length m \<le> length t" by simp_all
  then show ?thesis by (metis prefixI)
qed

lemma firstOccurrence_search:
  assumes "firstOccurrence m s pre post"
  shows "search m s = Some (length pre)"
proof (rule search_eqI)
  from assms have s: "s = pre @ m @ post" and no: "\<not> sublist m (pre @ butlast m)"
    by (simp_all add: firstOccurrence_def)
  from no have ne: "m \<noteq> []" by auto
  show "length pre \<le> length s" using s by simp
  show "prefix m (drop (length pre) s)" using s by simp
  show "\<not> prefix m (drop j s)" if "j < length pre" for j
  proof
    assume "prefix m (drop j s)"
    then have "sublist m (take (j + length m) s)" by (rule prefix_drop_sublist_take)
    moreover have "j + length m \<le> length (pre @ butlast m)" using that ne by simp
    then have "take (j + length m) s = take (j + length m) (pre @ butlast m)"
      using s ne by (metis append_butlast_last_id append.assoc take_append take_all_iff
          append_Nil2 diff_is_0_eq' take_0 length_append)
    ultimately have "sublist m (pre @ butlast m)"
      by (metis sublist_order.order_trans sublist_take)
    with no show False by simp
  qed
qed

lemma search_firstOccurrence:
  assumes "search m s = Some i" "m \<noteq> []"
  shows "firstOccurrence m s (take i s) (drop (i + length m) s)"
proof -
  from search_Some_prefix[OF assms(1)] have i: "i \<le> length s" and p: "prefix m (drop i s)"
    by simp_all
  from p obtain r where r: "drop i s = m @ r" by (auto simp: prefix_def)
  then have "drop (i + length m) s = r"
    by (metis add.commute append_eq_conv_conj drop_drop)
  with r have s: "s = take i s @ m @ drop (i + length m) s"
    by (metis append_take_drop_id)
  have "\<not> sublist m (take i s @ butlast m)"
  proof
    assume sl: "sublist m (take i s @ butlast m)"
    have "prefix (take i s @ butlast m) s"
      by (metis s assms(2) append_butlast_last_id append.assoc prefixI)
    from sublist_take_prefix_drop[OF sl this]
    obtain j where j: "j + length m \<le> length (take i s @ butlast m)" "prefix m (drop j s)"
      by blast
    have "length (take i s @ butlast m) = i + (length m - 1)" using i by simp
    moreover have "0 < length m" using assms(2) by simp
    ultimately have "j < i" using j(1) by linarith
    with search_Some_least[OF assms(1)] j(2) show False by blast
  qed
  with s show ?thesis unfolding firstOccurrence_def by blast
qed

section \<open>Properties of the reload payload\<close>

lemmas strip_eval = js_def reloadCode_def stripHeader_def stripHotReloadClient_def indexOf_def slice_def trimStart_def
  headerEndMarker_def hotReloadMarker_def hotReloadEndMarker_def isWhiteSpace_def

lemma indexOf_0: "indexOf s m 0 = search m s"
  by (cases "search m s") (simp_all add: indexOf_def)

lemma indexOf_from: "h \<le> length s \<Longrightarrow> indexOf s m h = map_option (\<lambda>i. h + i) (search m (drop h s))"
  by (simp add: indexOf_def min_def)

lemma suffix_trimStart: "suffix (trimStart s) s"
  by (simp add: trimStart_def suffix_dropWhile)

lemma suffix_stripHeader: "suffix (stripHeader s) s"
  unfolding stripHeader_def slice_def
  by (auto split: option.splits intro: suffix_order.order_trans[OF suffix_trimStart] suffix_drop)

lemma suffix_stripHotReloadClient: "suffix (stripHotReloadClient s) s"
  unfolding stripHotReloadClient_def slice_def
  by (auto split: option.splits intro: suffix_order.order_trans[OF suffix_trimStart] suffix_drop)

lemma sublist_suffix: "sublist m t \<Longrightarrow> suffix t s \<Longrightarrow> sublist m s"
  by (meson sublist_order.order_trans suffix_imp_sublist)

lemma headerEndMarker_ne: "headerEndMarker \<noteq> []"
  by (simp add: headerEndMarker_def js_def)
lemma hotReloadMarker_ne: "hotReloadMarker \<noteq> []"
  by (simp add: hotReloadMarker_def js_def)
lemma hotReloadEndMarker_ne: "hotReloadEndMarker \<noteq> []"
  by (simp add: hotReloadEndMarker_def js_def)

lemma stripHeader_absent: "\<not> sublist headerEndMarker s \<Longrightarrow> stripHeader s = s"
  by (simp add: stripHeader_def indexOf_0 search_None_iff[symmetric])

lemma stripHeader_first:
  assumes "firstOccurrence headerEndMarker s pre post"
  shows "stripHeader s = trimStart post"
proof -
  from assms have s: "s = pre @ headerEndMarker @ post" by (simp add: firstOccurrence_def)
  have "drop (length pre + length headerEndMarker) s = post" by (subst s) simp
  then show ?thesis 
    by (simp add: stripHeader_def indexOf_0 firstOccurrence_search[OF assms] slice_def)
qed

lemma stripHeader_cases:
  "(\<not> sublist headerEndMarker s \<and> stripHeader s = s) \<or>
   (\<exists>pre post. firstOccurrence headerEndMarker s pre post \<and> stripHeader s = trimStart post)"
proof (cases "search headerEndMarker s")
  case None
  then show ?thesis by (simp add: search_None_iff stripHeader_absent)
next
  case (Some i)
  from search_firstOccurrence[OF Some headerEndMarker_ne] stripHeader_first
  show ?thesis by blast
qed

lemma stripHotReloadClient_absent:
  "\<not> sublist hotReloadMarker c \<Longrightarrow> stripHotReloadClient c = c"
  by (simp add: stripHotReloadClient_def indexOf_0 search_None_iff[symmetric])

lemma stripHotReloadClient_unclosed:
  assumes "firstOccurrence hotReloadMarker c pre post"
    and "\<not> sublist hotReloadEndMarker (hotReloadMarker @ post)"
  shows "stripHotReloadClient c = c"
proof -
  from assms(1) have c: "c = pre @ hotReloadMarker @ post" by (simp add: firstOccurrence_def)
  have d: "drop (length pre) c = hotReloadMarker @ post" by (subst c) simp
  have l: "length pre \<le> length c" by (subst c) simp
  from assms(2) have "search hotReloadEndMarker (hotReloadMarker @ post) = None"
    by (simp add: search_None_iff)
  then show ?thesis
    by (simp add: stripHotReloadClient_def indexOf_0 firstOccurrence_search[OF assms(1)]
        indexOf_from[OF l] d)
qed

lemma stripHotReloadClient_block:
  assumes "firstOccurrence hotReloadMarker c pre post"
    and "firstOccurrence hotReloadEndMarker (hotReloadMarker @ post) mid rest"
  shows "stripHotReloadClient c = trimStart rest"
proof -
  from assms(1) have c: "c = pre @ hotReloadMarker @ post" by (simp add: firstOccurrence_def)
  from assms(2) have m: "hotReloadMarker @ post = mid @ hotReloadEndMarker @ rest"
    by (simp add: firstOccurrence_def)
  have d: "drop (length pre) c = hotReloadMarker @ post" by (subst c) simp
  have l: "length pre \<le> length c" by (subst c) simp
  have "drop (length pre + length mid + length hotReloadEndMarker) c
        = drop (length mid + length hotReloadEndMarker) (drop (length pre) c)"
    by (simp add: add.commute add.left_commute)
  also have "\<dots> = rest" unfolding d m by simp
  finally have r: "drop (length pre + length mid + length hotReloadEndMarker) c = rest" .
  show ?thesis
    by (simp add: stripHotReloadClient_def indexOf_0 firstOccurrence_search[OF assms(1)]
        indexOf_from[OF l] d firstOccurrence_search[OF assms(2)] slice_def r)
qed

lemma stripHotReloadClient_cases:
  "(\<not> sublist hotReloadMarker c \<and> stripHotReloadClient c = c) \<or>
   (\<exists>pre post. firstOccurrence hotReloadMarker c pre post \<and>
      ((\<not> sublist hotReloadEndMarker (hotReloadMarker @ post) \<and> stripHotReloadClient c = c) \<or>
       (\<exists>mid rest. firstOccurrence hotReloadEndMarker (hotReloadMarker @ post) mid rest \<and>
          stripHotReloadClient c = trimStart rest)))"
proof (cases "search hotReloadMarker c")
  case None
  then show ?thesis by (simp add: search_None_iff stripHotReloadClient_absent)
next
  case (Some h)
  from search_firstOccurrence[OF Some hotReloadMarker_ne]
  obtain pre post where f: "firstOccurrence hotReloadMarker c pre post" by blast
  show ?thesis
  proof (cases "search hotReloadEndMarker (hotReloadMarker @ post)")
    case None
    then have "\<not> sublist hotReloadEndMarker (hotReloadMarker @ post)"
      by (simp add: search_None_iff)
    with f stripHotReloadClient_unclosed show ?thesis by blast
  next
    case (Some e)
    from search_firstOccurrence[OF Some hotReloadEndMarker_ne] f stripHotReloadClient_block
    show ?thesis by blast
  qed
qed

lemma suffix_dropE: "suffix t s \<Longrightarrow> \<exists>n. t = drop n s"
  by (metis suffix_def append_eq_conv_conj)

lemma length_headerEndMarker: "length headerEndMarker = 18"
  by (simp add: headerEndMarker_def js_def)

lemma length_hotReloadEndMarker: "length hotReloadEndMarker = 5"
  by (simp add: hotReloadEndMarker_def js_def)

lemma suffix_drop_later: "Suc j \<le> n \<Longrightarrow> suffix (drop n s) (drop (Suc j) s)"
proof -
  assume "Suc j \<le> n"
  then have "n = (n - Suc j) + Suc j" by simp
  then have "drop n s = drop (n - Suc j) (drop (Suc j) s)" by (metis drop_drop)
  then show ?thesis by (metis suffix_drop)
qed

lemma no_later_occurrence:
  assumes "occursAtMostOnce m s" and "prefix m (drop j s)"
  shows "\<not> sublist m (drop (Suc j) s)"
proof (cases "search m s")
  case None
  then have "\<not> sublist m s" by (simp add: search_None_iff)
  then show ?thesis by (meson sublist_suffix suffix_drop)
next
  case (Some i)
  have "i \<le> j"
  proof (rule ccontr)
    assume "\<not> i \<le> j"
    then have "j < i" by simp
    from search_Some_least[OF Some this] assms(2) show False by simp
  qed
  then have "drop (Suc j) s = drop (j - i) (drop (Suc i) s)" by simp
  then have "suffix (drop (Suc j) s) (drop (Suc i) s)" by (metis suffix_drop)
  moreover from assms(1) Some have "\<not> sublist m (drop (Suc i) s)"
    by (simp add: occursAtMostOnce_def)
  ultimately show ?thesis by (meson sublist_suffix)
qed

lemma stripHeader_removes_marker:
  assumes "occursAtMostOnce headerEndMarker s"
  shows "\<not> sublist headerEndMarker (stripHeader s)"
proof (cases "search headerEndMarker s")
  case None
  then show ?thesis by (simp add: search_None_iff stripHeader_absent)
next
  case (Some i)
  have "suffix (drop (i + length headerEndMarker) s) (drop (Suc i) s)"
    by (intro suffix_drop_later) (simp add: length_headerEndMarker)
  then have "suffix (stripHeader s) (drop (Suc i) s)"
    using Some suffix_trimStart
    by (auto simp: stripHeader_def indexOf_0 slice_def intro: suffix_order.order_trans)
  moreover from search_Some_prefix[OF Some] assms
  have "\<not> sublist headerEndMarker (drop (Suc i) s)" by (simp add: no_later_occurrence)
  ultimately show ?thesis by (meson sublist_suffix)
qed

lemma stripHotReloadClient_stable:
  assumes "occursAtMostOnce hotReloadMarker s" and "suffix c s"
  shows "stripHotReloadClient (stripHotReloadClient c) = stripHotReloadClient c"
proof (cases "search hotReloadMarker c")
  case None
  then show ?thesis by (simp add: stripHotReloadClient_def indexOf_0)
next
  case (Some h)
  from search_Some_prefix[OF Some] have h: "h \<le> length c" "prefix hotReloadMarker (drop h c)"
    by simp_all
  show ?thesis
  proof (cases "search hotReloadEndMarker (drop h c)")
    case None
    then show ?thesis using Some h(1) by (simp add: stripHotReloadClient_def indexOf_0 indexOf_from)
  next
    case e: (Some k)
    let ?p = "trimStart (drop (h + k + length hotReloadEndMarker) c)"
    have p: "stripHotReloadClient c = ?p"
      using Some e h(1) by (simp add: stripHotReloadClient_def indexOf_0 indexOf_from slice_def)
    from assms(2) obtain n where n: "c = drop n s" using suffix_dropE by blast
    from h(2) n have "prefix hotReloadMarker (drop (h + n) s)" by simp
    with assms(1) have no: "\<not> sublist hotReloadMarker (drop (Suc (h + n)) s)"
      by (rule no_later_occurrence)
    have "suffix (drop (h + k + length hotReloadEndMarker + n) s) (drop (Suc (h + n)) s)"
      by (intro suffix_drop_later) (simp add: length_hotReloadEndMarker)
    then have "suffix (drop (h + k + length hotReloadEndMarker) c) (drop (Suc (h + n)) s)"
      unfolding n by simp
    with suffix_trimStart have "suffix ?p (drop (Suc (h + n)) s)"
      by (rule suffix_order.order_trans)
    with no have "\<not> sublist hotReloadMarker ?p" by (meson sublist_suffix)
    then show ?thesis unfolding p by (rule stripHotReloadClient_absent)
  qed
qed

lemma reloadCode_twice:
  assumes "occursAtMostOnce headerEndMarker s" and "occursAtMostOnce hotReloadMarker s"
  shows "reloadCode (reloadCode s) = reloadCode s"
proof -
  have "\<not> sublist headerEndMarker (stripHeader s)"
    using assms(1) by (rule stripHeader_removes_marker)
  then have "\<not> sublist headerEndMarker (reloadCode s)"
    unfolding reloadCode_def by (meson sublist_suffix suffix_stripHotReloadClient)
  then have "stripHeader (reloadCode s) = reloadCode s" by (rule stripHeader_absent)
  then have "reloadCode (reloadCode s) = stripHotReloadClient (reloadCode s)"
    by (simp add: reloadCode_def)
  also have "\<dots> = reloadCode s"
    unfolding reloadCode_def
    using assms(2) suffix_stripHeader by (rule stripHotReloadClient_stable)
  finally show ?thesis .
qed

lemma stripHotReloadClient_no_block:
  assumes "\<not> sublist hotReloadMarker s \<or> \<not> sublist hotReloadEndMarker s" and "suffix c s"
  shows "stripHotReloadClient c = c"
proof (cases "search hotReloadMarker c")
  case None
  then show ?thesis by (simp add: stripHotReloadClient_def indexOf_0)
next
  case (Some h)
  then have "sublist hotReloadMarker c" using search_None_iff[of hotReloadMarker c] by simp
  with assms(2) have "sublist hotReloadMarker s" by (meson sublist_suffix)
  with assms(1) have "\<not> sublist hotReloadEndMarker s" by simp
  moreover have "suffix (drop h c) s" using assms(2) suffix_drop suffix_order.order_trans by blast
  ultimately have "\<not> sublist hotReloadEndMarker (drop h c)" by (meson sublist_suffix)
  then have "search hotReloadEndMarker (drop h c) = None" by (simp add: search_None_iff)
  with Some search_Some_prefix[OF Some] show ?thesis
    by (simp add: stripHotReloadClient_def indexOf_0 indexOf_from)
qed

text \<open>
  Claim C3, as the code has it. The payload is computed in two stages. First stage: when
  the header-end marker does not occur, the intermediate code is the whole artifact;
  otherwise it is the text after the first occurrence of the marker, leading white space
  trimmed. Second stage, applied to the intermediate code in both cases: when the
  start marker of the client does not occur in it, or occurs with no closing
  \<^verbatim>\<open>})();\<close> at or after its first occurrence, the payload is the intermediate code;
  otherwise the payload is the text after the first \<^verbatim>\<open>})();\<close> at or after the first
  start marker, trimmed again.
\<close>

theorem reloadCode_two_stage:
  "\<exists>code. ((\<not> sublist headerEndMarker s \<and> code = s) \<or>
            (\<exists>pre post. firstOccurrence headerEndMarker s pre post \<and> code = trimStart post)) \<and>
     ((\<not> sublist hotReloadMarker code \<and> reloadCode s = code) \<or>
      (\<exists>pre post. firstOccurrence hotReloadMarker code pre post \<and>
         ((\<not> sublist hotReloadEndMarker (hotReloadMarker @ post) \<and> reloadCode s = code) \<or>
          (\<exists>mid rest. firstOccurrence hotReloadEndMarker (hotReloadMarker @ post) mid rest \<and>
             reloadCode s = trimStart rest))))"
  unfolding reloadCode_def
  using stripHeader_cases[of s] stripHotReloadClient_cases[of "stripHeader s"]
  by (intro exI[of _ "stripHeader s"]) blast

text \<open>
  Claim C3 as stated says that an artifact without the header-end marker is used as it
  is. The second stage still runs on it: an artifact with no header but with a client
  block loses the block.
\<close>

theorem reloadCode_header_absent_counterexample:
  "\<not> sublist headerEndMarker (js ''// Hot reload client - injected in development mode})();x'') \<and>
   reloadCode (js ''// Hot reload client - injected in development mode})();x'')
     \<noteq> js ''// Hot reload client - injected in development mode})();x''"
  by (simp add: strip_eval sublist_Cons_right)

text \<open>
  Claim C4, as the code has it. The strip is a function of the artifact text. For every
  artifact in which the header-end marker and the start marker of the client each occur
  at most once, stripping the payload again returns the payload. For every artifact
  without the start marker of the client, or without any \<^verbatim>\<open>})();\<close>, the payload is
  the artifact after header removal: the artifact itself when the header-end marker is
  absent, the trimmed text after its first occurrence otherwise.
\<close>

theorem reloadCode_idempotent_single_markers:
  "(occursAtMostOnce headerEndMarker s \<and> occursAtMostOnce hotReloadMarker s \<longrightarrow>
      reloadCode (reloadCode s) = reloadCode s) \<and>
   (\<not> sublist hotReloadMarker s \<or> \<not> sublist hotReloadEndMarker s \<longrightarrow>
      (\<not> sublist headerEndMarker s \<longrightarrow> reloadCode s = s) \<and>
      (\<forall>pre post. firstOccurrence headerEndMarker s pre post \<longrightarrow> reloadCode s = trimStart post))"
proof (intro conjI impI allI)
  assume "occursAtMostOnce headerEndMarker s \<and> occursAtMostOnce hotReloadMarker s"
  then show "reloadCode (reloadCode s) = reloadCode s" by (simp add: reloadCode_twice)
next
  assume a: "\<not> sublist hotReloadMarker s \<or> \<not> sublist hotReloadEndMarker s"
  then have r: "reloadCode s = stripHeader s"
    unfolding reloadCode_def using suffix_stripHeader by (rule stripHotReloadClient_no_block)
  { assume "\<not> sublist headerEndMarker s"
    then show "reloadCode s = s" by (simp add: r stripHeader_absent) }
  { fix pre post assume "firstOccurrence headerEndMarker s pre post"
    then show "reloadCode s = trimStart post" by (simp add: r stripHeader_first) }
qed

theorem reloadCode_idempotent_single_markers_witness:
  "occursAtMostOnce headerEndMarker (js ''// ==/UserScript==  // Hot reload client - injected in development mode})(); f();'') \<and>
   occursAtMostOnce hotReloadMarker (js ''// ==/UserScript==  // Hot reload client - injected in development mode})(); f();'') \<and>
   reloadCode (reloadCode (js ''// ==/UserScript==  // Hot reload client - injected in development mode})(); f();''))
     = reloadCode (js ''// ==/UserScript==  // Hot reload client - injected in development mode})(); f();'') \<and>
   reloadCode (js ''// ==/UserScript==  // Hot reload client - injected in development mode})(); f();'') = js ''f();'' \<and>
   \<not> sublist hotReloadMarker (js ''// @name T // ==/UserScript==  f();'') \<and>
   firstOccurrence headerEndMarker (js ''// @name T // ==/UserScript==  f();'') (js ''// @name T '') (js ''  f();'') \<and>
   reloadCode (js ''// @name T // ==/UserScript==  f();'') = trimStart (js ''  f();'') \<and>
   trimStart (js ''  f();'') = js ''f();''"
proof -
  let ?a = "js ''// ==/UserScript==  // Hot reload client - injected in development mode})(); f();''"
  let ?b = "js ''// @name T // ==/UserScript==  f();''"
  have 1: "occursAtMostOnce headerEndMarker ?a"
    by (simp add: occursAtMostOnce_def strip_eval sublist_Cons_right)
  have 2: "occursAtMostOnce hotReloadMarker ?a"
    by (simp add: occursAtMostOnce_def strip_eval sublist_Cons_right)
  have 3: "\<not> sublist hotReloadMarker ?b"
    by (simp add: strip_eval sublist_Cons_right)
  have 4: "firstOccurrence headerEndMarker ?b (js ''// @name T '') (js ''  f();'')"
    by (simp add: firstOccurrence_def strip_eval sublist_Cons_right)
  have 5: "reloadCode ?a = js ''f();''" by (simp add: strip_eval)
  have 6: "trimStart (js ''  f();'') = js ''f();''" by (simp add: strip_eval)
  from reloadCode_idempotent_single_markers[of ?a] 1 2
  have 7: "reloadCode (reloadCode ?a) = reloadCode ?a" by blast
  from reloadCode_idempotent_single_markers[of ?b] 3 4
  have 8: "reloadCode ?b = trimStart (js ''  f();'')" by blast
  from 1 2 3 4 5 6 7 8 show ?thesis by blast
qed

text \<open>
  Claim C4 as stated says that the strip is idempotent on every artifact text. A text
  with the header-end marker twice loses one marker at each application.
\<close>

theorem reloadCode_twice_counterexample:
  "reloadCode (reloadCode (js ''// ==/UserScript==a// ==/UserScript==b''))
     \<noteq> reloadCode (js ''// ==/UserScript==a// ==/UserScript==b'')"
  by (simp add: strip_eval)

section \<open>Properties of the injected client text\<close>

lemma sublist_past_LF:
  assumes "x \<notin> set m" and "m \<noteq> []"
  shows "sublist m (l @ x # r) \<longleftrightarrow> sublist m l \<or> sublist m r"
proof -
  have a: "\<not> prefix m (x # r)" using assms by (cases m) auto
  have "(\<exists>xs1 xs2. m = xs1 @ xs2 \<and> suffix xs1 l \<and> prefix xs2 (x # r)) \<longrightarrow> sublist m l"
  proof (intro impI, elim exE conjE)
    fix xs1 xs2 assume h: "m = xs1 @ xs2" "suffix xs1 l" "prefix xs2 (x # r)"
    have "xs2 = []"
    proof (cases xs2)
      case (Cons y ys)
      with h(3) have "y = x" by simp
      with Cons h(1) assms(1) show ?thesis by simp
    qed simp
    with h show "sublist m l" by simp
  qed
  then show ?thesis using a by (auto simp: sublist_append sublist_Cons_right)
qed

lemma sublist_joinLines:
  assumes "LF \<notin> set m" and "m \<noteq> []"
  shows "sublist m (joinLines ls @ r) \<longleftrightarrow> (\<exists>l\<in>set ls. sublist m l) \<or> sublist m r"
proof (induction ls)
  case Nil
  then show ?case by (simp add: joinLines_def)
next
  case (Cons l ls)
  have "joinLines (l # ls) @ r = l @ LF # (joinLines ls @ r)" by (simp add: joinLines_def)
  then show ?case using Cons sublist_past_LF[OF assms] by auto
qed

lemma last_clientBody: "last clientBody = hotReloadEndMarker"
  by (simp add: clientBody_def hotReloadEndMarker_def)

lemma clientBody_split: "joinLines clientBody = joinLines (butlast clientBody) @ hotReloadEndMarker @ [LF]"
proof -
  have "clientBody \<noteq> []" by (simp add: clientBody_def)
  then have "clientBody = butlast clientBody @ [hotReloadEndMarker]"
    using last_clientBody by (metis append_butlast_last_id)
  then have "joinLines clientBody = joinLines (butlast clientBody @ [hotReloadEndMarker])" by simp
  then show ?thesis by (simp add: joinLines_def)
qed

lemma hd_notin_not_sublist: "m \<noteq> [] \<Longrightarrow> hd m \<notin> set l \<Longrightarrow> \<not> sublist m l"
  by (metis hd_in_set set_mono_sublist subsetD)

lemma clientBody_lines: "\<forall>l\<in>set (butlast clientBody). \<not> sublist hotReloadEndMarker l"
  by (simp add: clientBody_def hotReloadEndMarker_def js_def sublist_Cons_right)

lemma digit_unit_ne: "k < 10 \<Longrightarrow> (of_nat (48 + k) :: jschar) \<noteq> 125"
proof -
  assume "k < 10"
  then have "k \<in> {0, 1, 2, 3, 4, 5, 6, 7, 8, 9}" by auto
  then show ?thesis by auto
qed

lemma digitsOf_no_brace: "(125 :: jschar) \<notin> set (digitsOf n)"
proof (induction n rule: digitsOf.induct)
  case (1 n)
  show ?case
  proof (cases "n < 10")
    case True
    then show ?thesis using digit_unit_ne[of n] by (simp add: digitsOf.simps[of n])
  next
    case False
    have "n mod 10 < 10" by simp
    from digit_unit_ne[OF this] 1[OF False] False show ?thesis
      by (simp add: digitsOf.simps[of n])
  qed
qed

lemma numberToString_no_brace: "(125 :: jschar) \<notin> set (numberToString port)"
  by (simp add: numberToString_def js_def digitsOf_no_brace)

lemma client_as_lines:
  "getHotReloadClient port =
     [LF] @ joinLines (clientHeadLines port @ butlast clientBody) @ hotReloadEndMarker @ [LF]"
  by (simp add: getHotReloadClient_def clientHeadLines_def joinLines_def clientBody_split[unfolded joinLines_def]
      hotReloadMarker_def)

lemma hotReloadEndMarker_units: "hotReloadEndMarker = [125, 41, 40, 41, 59]"
  by (simp add: hotReloadEndMarker_def js_def)

lemma clientHeadLines_clean: "\<forall>l\<in>set (clientHeadLines port). \<not> sublist hotReloadEndMarker l"
proof -
  have "\<not> sublist hotReloadEndMarker hotReloadMarker"
    by (rule hd_notin_not_sublist) (simp_all add: hotReloadEndMarker_units hotReloadMarker_def js_def)
  moreover have "\<not> sublist hotReloadEndMarker (js ''(function() {'')"
    by (rule hd_notin_not_sublist) (simp_all add: hotReloadEndMarker_units js_def)
  moreover have "\<not> sublist hotReloadEndMarker
      (js ''  const HOT_RELOAD_PORT = '' @ numberToString port @ js '';'')"
    by (rule hd_notin_not_sublist)
       (simp_all add: hotReloadEndMarker_units js_def numberToString_no_brace)
  ultimately show ?thesis by (simp add: clientHeadLines_def)
qed

lemma client_block_clean:
  "\<not> sublist hotReloadEndMarker
       (r @ joinLines (clientHeadLines port @ butlast clientBody) @ butlast hotReloadEndMarker)"
  if "r = [] \<or> r = [LF]"
proof -
  have m: "LF \<notin> set hotReloadEndMarker" "hotReloadEndMarker \<noteq> []"
    by (simp_all add: hotReloadEndMarker_units LF_def)
  have b: "\<not> sublist hotReloadEndMarker (butlast hotReloadEndMarker)"
    by (simp add: hotReloadEndMarker_units sublist_Cons_right)
  have j: "\<not> sublist hotReloadEndMarker
       (joinLines (clientHeadLines port @ butlast clientBody) @ butlast hotReloadEndMarker)"
    using clientHeadLines_clean clientBody_lines b by (auto simp: sublist_joinLines[OF m])
  from that show ?thesis
  proof
    assume "r = []" with j show ?thesis by simp
  next
    assume "r = [LF]"
    with j sublist_past_LF[OF m, of "[]"] m(2) show ?thesis by simp
  qed
qed

lemma trimStart_LF: "trimStart (LF # s) = trimStart s"
  by (simp add: trimStart_def isWhiteSpace_def LF_def)

text \<open>
  Claim C10. For every port and every user code: the client text starts, after a leading
  line feed, with the start-marker line; \<^verbatim>\<open>})();\<close> occurs in it exactly once, as its
  last line (only the final line feed follows the occurrence, and no occurrence starts
  earlier or later); and the strip of the client block applied to the client text
  followed by the user code returns the user code with leading white space trimmed.
\<close>

theorem getHotReloadClient_roundtrip:
  "prefix ([LF] @ hotReloadMarker @ [LF]) (getHotReloadClient port) \<and>
   (\<exists>pre. firstOccurrence hotReloadEndMarker (getHotReloadClient port) pre [LF]) \<and>
   occursAtMostOnce hotReloadEndMarker (getHotReloadClient port) \<and>
   stripHotReloadClient (getHotReloadClient port @ userCode) = trimStart userCode"
proof (intro conjI)
  let ?mid = "joinLines (clientHeadLines port @ butlast clientBody)"
  show "prefix ([LF] @ hotReloadMarker @ [LF]) (getHotReloadClient port)"
    by (simp add: getHotReloadClient_def hotReloadMarker_def)
  have f: "firstOccurrence hotReloadEndMarker (getHotReloadClient port) ([LF] @ ?mid) [LF]"
    using client_block_clean[of "[LF]" port]
    by (simp add: firstOccurrence_def client_as_lines)
  then show "\<exists>pre. firstOccurrence hotReloadEndMarker (getHotReloadClient port) pre [LF]" ..
  show "occursAtMostOnce hotReloadEndMarker (getHotReloadClient port)"
  proof -
    have "drop (Suc (length ([LF] @ ?mid))) (getHotReloadClient port) = tl hotReloadEndMarker @ [LF]"
      unfolding client_as_lines by (simp add: hotReloadEndMarker_units)
    moreover have "\<not> sublist hotReloadEndMarker (tl hotReloadEndMarker @ [LF])"
      by (simp add: hotReloadEndMarker_units sublist_Cons_right LF_def)
    ultimately show ?thesis
      using firstOccurrence_search[OF f] by (simp add: occursAtMostOnce_def)
  qed
  have h: "firstOccurrence hotReloadMarker (getHotReloadClient port @ userCode) [LF]
             (drop (Suc (length hotReloadMarker)) (getHotReloadClient port) @ userCode)"
  proof -
    have "\<not> sublist hotReloadMarker ([LF] @ butlast hotReloadMarker)"
      by (simp add: hotReloadMarker_def js_def LF_def sublist_Cons_right)
    then show ?thesis
      by (simp add: firstOccurrence_def getHotReloadClient_def hotReloadMarker_def)
  qed
  have p: "hotReloadMarker @ drop (Suc (length hotReloadMarker)) (getHotReloadClient port) @ userCode
      = ?mid @ hotReloadEndMarker @ [LF] @ userCode"
    by (simp add: client_as_lines clientHeadLines_def joinLines_def)
  have e: "firstOccurrence hotReloadEndMarker
      (hotReloadMarker @ drop (Suc (length hotReloadMarker)) (getHotReloadClient port) @ userCode)
      ?mid ([LF] @ userCode)"
    using client_block_clean[of "[]" port] by (simp add: firstOccurrence_def p)
  from stripHotReloadClient_block[OF h e]
  show "stripHotReloadClient (getHotReloadClient port @ userCode) = trimStart userCode"
    by (simp add: trimStart_LF)
qed

section \<open>Properties of the serving endpoint\<close>

text \<open>
  Claim C8, as the code has it. For every request: when the request target
  \<^verbatim>\<open>req.url\<close>, query string included, is exactly \<^verbatim>\<open>/\<close> or \<^verbatim>\<open>/\<close> followed by the
  artifact file name, and the artifact file exists, the response is 200 with
  Content-Type text/javascript, Access-Control-Allow-Origin * and the file's text as
  body, and 500 text/plain when reading the file fails; for the same request targets
  when the file does not exist, 404 text/plain; for every other request target, those
  two paths followed by a query string among them, 404 text/plain.
\<close>

theorem serve_contract:
  "(url = js ''/'' \<or> url = js ''/'' @ outFile \<longrightarrow>
      (fileExists \<longrightarrow>
         serve outFile fileExists (Inr content) url =
           \<lparr>statusCode = 200,
            headers = [(''Content-Type'', ''text/javascript''), (''Access-Control-Allow-Origin'', ''*'')],
            body = content\<rparr> \<and>
         statusCode (serve outFile fileExists (Inl e) url) = 500 \<and>
         headers (serve outFile fileExists (Inl e) url) = [(''Content-Type'', ''text/plain'')]) \<and>
      (\<not> fileExists \<longrightarrow>
         statusCode (serve outFile fileExists fileRead url) = 404 \<and>
         headers (serve outFile fileExists fileRead url) = [(''Content-Type'', ''text/plain'')])) \<and>
   (url \<noteq> js ''/'' \<and> url \<noteq> js ''/'' @ outFile \<longrightarrow>
      statusCode (serve outFile fileExists fileRead url) = 404 \<and>
      headers (serve outFile fileExists fileRead url) = [(''Content-Type'', ''text/plain'')])"
  by (auto simp: serve_def)

theorem serve_contract_witness:
  "js ''/bundle.user.js'' = js ''/'' @ js ''bundle.user.js'' \<and>
   serve (js ''bundle.user.js'') True (Inr (js ''f();'')) (js ''/bundle.user.js'') =
     \<lparr>statusCode = 200,
      headers = [(''Content-Type'', ''text/javascript''), (''Access-Control-Allow-Origin'', ''*'')],
      body = js ''f();''\<rparr> \<and>
   statusCode (serve (js ''bundle.user.js'') True (Inl IOError) (js ''/bundle.user.js'')) = 500 \<and>
   statusCode (serve (js ''bundle.user.js'') False (Inl IOError) (js ''/'')) = 404 \<and>
   js ''/favicon.ico'' \<noteq> js ''/'' \<and> js ''/favicon.ico'' \<noteq> js ''/'' @ js ''bundle.user.js'' \<and>
   statusCode (serve (js ''bundle.user.js'') True (Inr (js ''f();'')) (js ''/favicon.ico'')) = 404 \<and>
   headers (serve (js ''bundle.user.js'') True (Inr (js ''f();'')) (js ''/favicon.ico''))
     = [(''Content-Type'', ''text/plain'')]"
proof -
  have a: "js ''/bundle.user.js'' = js ''/'' @ js ''bundle.user.js''" by (simp add: js_def)
  have b: "js ''/favicon.ico'' \<noteq> js ''/''" "js ''/favicon.ico'' \<noteq> js ''/'' @ js ''bundle.user.js''"
    by (simp_all add: js_def)
  from serve_contract[of "js ''/bundle.user.js''" "js ''bundle.user.js''" True "js ''f();''" IOError] a
  have 1: "serve (js ''bundle.user.js'') True (Inr (js ''f();'')) (js ''/bundle.user.js'') =
     \<lparr>statusCode = 200,
      headers = [(''Content-Type'', ''text/javascript''), (''Access-Control-Allow-Origin'', ''*'')],
      body = js ''f();''\<rparr>"
    and 2: "statusCode (serve (js ''bundle.user.js'') True (Inl IOError) (js ''/bundle.user.js'')) = 500"
    by simp_all
  from serve_contract[of "js ''/''" "js ''bundle.user.js''" False _ _ "Inl IOError"]
  have 3: "statusCode (serve (js ''bundle.user.js'') False (Inl IOError) (js ''/'')) = 404"
    by simp
  from serve_contract[of "js ''/favicon.ico''" "js ''bundle.user.js''" True _ _ "Inr (js ''f();'')"] b
  have 4: "statusCode (serve (js ''bundle.user.js'') True (Inr (js ''f();'')) (js ''/favicon.ico'')) = 404"
    and 5: "headers (serve (js ''bundle.user.js'') True (Inr (js ''f();'')) (js ''/favicon.ico''))
     = [(''Content-Type'', ''text/plain'')]"
    by simp_all
  from a b 1 2 3 4 5 show ?thesis by blast
qed

text \<open>
  Claim C8 as stated is about the path of the request. A request for the artifact path
  with a query string is answered 404 although the file exists and can be read.
\<close>

theorem serve_query_string_counterexample:
  "requestPath (js ''/bundle.user.js?v=2'') = js ''/'' @ js ''bundle.user.js'' \<and>
   serve (js ''bundle.user.js'') True (Inr (js ''f();'')) (js ''/bundle.user.js?v=2'') =
     \<lparr>statusCode = 404, headers = [(''Content-Type'', ''text/plain'')],
      body = js ''Not found''\<rparr>"
  by (simp add: requestPath_def serve_def js_def)

section \<open>Properties of the broadcast\<close>

lemma forEachSend_acc:
  "foldl (\<lambda>out client. if readyState client = 1 then out @ [(clientId client, m)] else out) acc cs
     = acc @ map (\<lambda>c. (clientId c, m)) (filter (\<lambda>c. readyState c = 1) cs)"
  by (induction cs arbitrary: acc) auto

lemma forEachSend_filter:
  "forEachSend m cs = map (\<lambda>c. (clientId c, m)) (filter (\<lambda>c. readyState c = 1) cs)"
  unfolding forEachSend_def forEachSend_acc by simp

lemma length_filter_split:
  "length (filter P xs) + length (filter (\<lambda>x. \<not> P x) xs) = length xs"
  by (induction xs) auto

text \<open>
  Claim C6. For every broadcast of an artifact that could be read: the messages sent are
  one per open channel (\<^verbatim>\<open>readyState\<close> 1) of the connected clients, in their
  order, each the reload message of the stripped artifact; channels in any other state
  get nothing, and the call ends with its one log line, without an error. With distinct
  channels, the receivers are exactly the open ones, each once. With three clients of
  which exactly one is not open, two messages are sent.
\<close>

theorem notifyClients_open_only:
  "map fst (sent (notifyClients (Inr scriptContent) clients))
       = map clientId (filter (\<lambda>c. readyState c = 1) clients) \<and>
   (\<forall>d\<in>set (sent (notifyClients (Inr scriptContent) clients)).
       snd d = Reload (reloadCode scriptContent)) \<and>
   logged (notifyClients (Inr scriptContent) clients)
       = [SentReload (length clients) (roundKb (length (reloadCode scriptContent)))] \<and>
   (distinct (map clientId clients) \<longrightarrow>
      distinct (map fst (sent (notifyClients (Inr scriptContent) clients))) \<and>
      fst ` set (sent (notifyClients (Inr scriptContent) clients))
        = {clientId c | c. c \<in> set clients \<and> readyState c = 1}) \<and>
   (length clients = 3 \<and> length (filter (\<lambda>c. readyState c \<noteq> 1) clients) = 1 \<longrightarrow>
      length (sent (notifyClients (Inr scriptContent) clients)) = 2)"
proof -
  let ?open = "filter (\<lambda>c. readyState c = 1) clients"
  have s: "sent (notifyClients (Inr scriptContent) clients)
      = map (\<lambda>c. (clientId c, Reload (reloadCode scriptContent))) ?open"
    by (simp add: notifyClients_def forEachSend_filter Let_def)
  have 1: "map fst (sent (notifyClients (Inr scriptContent) clients)) = map clientId ?open"
    by (simp add: s comp_def)
  have 2: "\<forall>d\<in>set (sent (notifyClients (Inr scriptContent) clients)).
       snd d = Reload (reloadCode scriptContent)"
    by (auto simp: s)
  have 3: "logged (notifyClients (Inr scriptContent) clients)
       = [SentReload (length clients) (roundKb (length (reloadCode scriptContent)))]"
    by (simp add: notifyClients_def Let_def)
  have 4: "distinct (map fst (sent (notifyClients (Inr scriptContent) clients)))"
    if "distinct (map clientId clients)"
    unfolding 1 using that by (simp add: distinct_map_filter)
  have 5: "fst ` set (sent (notifyClients (Inr scriptContent) clients))
        = {clientId c | c. c \<in> set clients \<and> readyState c = 1}"
    by (auto simp: s image_iff)
  have 6: "length (sent (notifyClients (Inr scriptContent) clients)) = 2"
    if "length clients = 3 \<and> length (filter (\<lambda>c. readyState c \<noteq> 1) clients) = 1"
    using that length_filter_split[of "\<lambda>c. readyState c = 1" clients] by (simp add: s)
  from 1 2 3 4 5 6 show ?thesis by blast
qed

theorem notifyClients_open_only_witness:
  "distinct (map clientId [\<lparr>clientId = 1, readyState = 1\<rparr>, \<lparr>clientId = 2, readyState = 3\<rparr>,
       \<lparr>clientId = 3, readyState = 1\<rparr>]) \<and>
   length [\<lparr>clientId = 1, readyState = 1\<rparr>, \<lparr>clientId = 2, readyState = 3\<rparr>,
       \<lparr>clientId = 3, readyState = (1::nat)\<rparr>] = 3 \<and>
   length (filter (\<lambda>c. readyState c \<noteq> 1) [\<lparr>clientId = 1, readyState = 1\<rparr>,
       \<lparr>clientId = 2, readyState = 3\<rparr>, \<lparr>clientId = 3, readyState = 1\<rparr>]) = 1 \<and>
   map fst (sent (notifyClients (Inr (js ''// ==/UserScript== f();''))
      [\<lparr>clientId = 1, readyState = 1\<rparr>, \<lparr>clientId = 2, readyState = 3\<rparr>,
       \<lparr>clientId = 3, readyState = 1\<rparr>])) = [1, 3] \<and>
   length (sent (notifyClients (Inr (js ''// ==/UserScript== f();''))
      [\<lparr>clientId = 1, readyState = 1\<rparr>, \<lparr>clientId = 2, readyState = 3\<rparr>,
       \<lparr>clientId = 3, readyState = 1\<rparr>])) = 2"
  using notifyClients_open_only[of "js ''// ==/UserScript== f();''"
      "[\<lparr>clientId = 1, readyState = 1\<rparr>, \<lparr>clientId = 2, readyState = 3\<rparr>,
        \<lparr>clientId = 3, readyState = 1\<rparr>]"]
  by simp

section \<open>Properties of the metadata header\<close>

lemma prefix_foldl_push: "prefix a ls \<Longrightarrow> prefix a (foldl (\<lambda>ls v. ls @ [f v]) ls vs)"
  by (induction vs arbitrary: ls) simp_all

lemma prefix_addLine: "prefix a ls \<Longrightarrow> prefix a (addLine ls key v)"
proof (cases v)
  case None
  assume "prefix a ls" with None show ?thesis by simp
next
  case (Some w)
  assume "prefix a ls" with Some show ?thesis
    by (cases w) (simp_all add: prefix_foldl_push)
qed

lemma prefix_foldl_resource:
  "prefix a ls \<Longrightarrow>
   prefix a (foldl (\<lambda>ls (n, url). addLine ls key (Some (Str (n @ [SP] @ url)))) ls es)"
  by (induction es arbitrary: ls) (simp_all add: split_def)

lemma prefix_if: "prefix a x \<Longrightarrow> prefix a y \<Longrightarrow> prefix a (if c then x else y)"
  by simp

lemma prefix_case_option:
  "prefix a x \<Longrightarrow> (\<And>v. prefix a (f v)) \<Longrightarrow> prefix a (case opt of None \<Rightarrow> x | Some v \<Rightarrow> f v)"
  by (cases opt) simp_all

lemma headerLines_prefix: "prefix [js ''// ==UserScript==''] (headerLines metadata)"
  unfolding headerLines_def Let_def
  by (intro prefix_prefix prefix_addLine prefix_if prefix_case_option prefix_foldl_resource
        prefix_order.refl)

lemma headerLines_suffix: "suffix [headerEndMarker, []] (headerLines metadata)"
  unfolding headerLines_def Let_def headerEndMarker_def suffix_def
  by (intro exI) (simp only: append_assoc append_Cons append_Nil)

lemma headerLines_shape:
  "\<exists>mid. headerLines metadata = js ''// ==UserScript=='' # mid @ [headerEndMarker, []]"
proof -
  from headerLines_suffix obtain zs where zs: "headerLines metadata = zs @ [headerEndMarker, []]"
    by (auto simp: suffix_def)
  have ne: "js ''// ==UserScript=='' \<noteq> headerEndMarker"
    by (simp add: headerEndMarker_def js_def)
  from headerLines_prefix[of metadata] have "prefix [js ''// ==UserScript==''] (zs @ [headerEndMarker, []])"
    unfolding zs .
  with ne obtain mid where "zs = js ''// ==UserScript=='' # mid"
    by (cases zs) auto
  with zs show ?thesis by simp
qed

lemma join_Cons2: "ys \<noteq> [] \<Longrightarrow> join sep (x # ys) = x @ sep @ join sep ys"
  by (cases ys) simp_all

lemma join_last2: "join sep (xs @ [a, b]) = join sep (xs @ [a]) @ sep @ b"
  by (induction sep xs rule: join.induct) (simp_all add: join_Cons2)

lemma join_last1: "xs \<noteq> [] \<Longrightarrow> join sep (xs @ [a]) = join sep xs @ sep @ a"
  by (induction sep xs rule: join.induct) (simp_all add: join_Cons2)

lemma generateHeader_shape:
  "\<exists>pre. generateHeader metadata =
      js ''// ==UserScript=='' @ pre @ [LF] @ headerEndMarker @ [LF] \<and>
      (pre = [] \<or> prefix [LF] pre)"
proof -
  from headerLines_shape obtain ls where
    ls: "headerLines metadata = js ''// ==UserScript=='' # ls @ [headerEndMarker, []]" by blast
  have "generateHeader metadata
      = join [LF] ((js ''// ==UserScript=='' # ls) @ [headerEndMarker]) @ [LF]"
    unfolding generateHeader_def ls using join_last2[of "[LF]" "js ''// ==UserScript=='' # ls"]
    by simp
  also have "join [LF] ((js ''// ==UserScript=='' # ls) @ [headerEndMarker])
      = js ''// ==UserScript=='' @ [LF] @ join [LF] (ls @ [headerEndMarker])"
    by (simp add: join_Cons2)
  finally have g: "generateHeader metadata
      = (js ''// ==UserScript=='' @ [LF] @ join [LF] (ls @ [headerEndMarker])) @ [LF]" .
  show ?thesis
  proof (cases ls)
    case Nil
    with g show ?thesis by (intro exI[of _ "[]"]) simp
  next
    case (Cons a as)
    then have "join [LF] (ls @ [headerEndMarker]) = join [LF] ls @ [LF] @ headerEndMarker"
      using join_last1[of ls "[LF]" headerEndMarker] by simp
    with g show ?thesis by (intro exI[of _ "[LF] @ join [LF] ls"]) simp
  qed
qed

lemma search_sublist_Some: "sublist m s \<Longrightarrow> \<exists>i. search m s = Some i"
  using search_None_iff[of m s] by (cases "search m s") simp_all

lemma generateHeader_testMetadata:
  "generateHeader testMetadata =
     js ''// ==UserScript=='' @ [LF] @ js ''// @name         Test'' @ [LF] @
     js ''// ==/UserScript=='' @ [LF]"
  by (simp add: generateHeader_def headerLines_def testMetadata_def metaLine_def padEnd_def
      js_def SP_def LF_def eval_nat_numeral)

text \<open>
  Claim C9. For every metadata record (the name is a string in each), the header text
  begins with the line \<^verbatim>\<open>// ==UserScript==\<close> and ends with the line
  \<^verbatim>\<open>// ==/UserScript==\<close> followed by an empty last line. Hence every artifact that
  contains the banner of a build, with or without the client, contains the header-end
  marker: the search of the strip finds it, and the strip takes the branch that removes
  the header, never the one that keeps the artifact whole.
\<close>

theorem generateHeader_marker:
  "prefix (js ''// ==UserScript=='' @ [LF]) (generateHeader metadata) \<and>
   suffix ([LF] @ headerEndMarker @ [LF]) (generateHeader metadata) \<and>
   (sublist (buildBanner metadata dev hotReloadPort) artifact \<longrightarrow>
      (\<exists>i. indexOf artifact headerEndMarker 0 = Some i \<and>
           stripHeader artifact = trimStart (slice artifact (i + length headerEndMarker))))"
proof (intro conjI impI)
  from generateHeader_shape obtain pre where
    g: "generateHeader metadata = js ''// ==UserScript=='' @ pre @ [LF] @ headerEndMarker @ [LF]"
    and pre: "pre = [] \<or> prefix [LF] pre"
    by blast
  show "prefix (js ''// ==UserScript=='' @ [LF]) (generateHeader metadata)"
    unfolding g using pre by (auto simp: prefix_def)
  show "suffix ([LF] @ headerEndMarker @ [LF]) (generateHeader metadata)"
    unfolding g suffix_def by (intro exI[of _ "js ''// ==UserScript=='' @ pre"]) simp
  assume a: "sublist (buildBanner metadata dev hotReloadPort) artifact"
  have "sublist headerEndMarker (generateHeader metadata)"
    unfolding g sublist_def by (intro exI[of _ "js ''// ==UserScript=='' @ pre @ [LF]"] exI[of _ "[LF]"]) simp
  moreover have "sublist (generateHeader metadata) (buildBanner metadata dev hotReloadPort)"
    by (auto simp: buildBanner_def Let_def split: option.splits)
  ultimately have "sublist headerEndMarker artifact"
    using a by (meson sublist_order.order_trans)
  then obtain i where "search headerEndMarker artifact = Some i"
    using search_sublist_Some by blast
  then show "\<exists>i. indexOf artifact headerEndMarker 0 = Some i \<and>
           stripHeader artifact = trimStart (slice artifact (i + length headerEndMarker))"
    by (simp add: stripHeader_def indexOf_0)
qed

theorem generateHeader_marker_witness:
  "sublist (buildBanner testMetadata False None) (generateHeader testMetadata @ js ''f();'') \<and>
   generateHeader testMetadata =
     js ''// ==UserScript=='' @ [LF] @ js ''// @name         Test'' @ [LF] @
     js ''// ==/UserScript=='' @ [LF] \<and>
   indexOf (generateHeader testMetadata @ js ''f();'') headerEndMarker 0 = Some 40 \<and>
   stripHeader (generateHeader testMetadata @ js ''f();'') = js ''f();''"
proof -
  let ?a = "generateHeader testMetadata @ js ''f();''"
  have h: "sublist (buildBanner testMetadata False None) ?a"
    by (simp add: buildBanner_def)
  from generateHeader_marker[of testMetadata False None ?a] h
  obtain i where i: "indexOf ?a headerEndMarker 0 = Some i"
    "stripHeader ?a = trimStart (slice ?a (i + length headerEndMarker))" by blast
  have e: "indexOf ?a headerEndMarker 0 = Some 40"
    by (simp add: generateHeader_testMetadata indexOf_def headerEndMarker_def js_def LF_def)
  with i(1) have "i = 40" by simp
  with i(2) have "stripHeader ?a = js ''f();''"
    by (simp add: generateHeader_testMetadata headerEndMarker_def js_def LF_def slice_def
        trimStart_def isWhiteSpace_def)
  with h e generateHeader_testMetadata show ?thesis by blast
qed

section \<open>Properties of the rebuild coordinator\<close>

lemma flagsAgree_initial: "flagsAgree initial"
  by (simp add: flagsAgree_def initial_def)

lemma step_FileEvent_busy:
  "rebuilding s \<Longrightarrow> step FileEvent s = Some (s\<lparr>needsRebuild := True\<rparr>)"
  by (simp add: step_def rebuild_def)

lemma step_FileEvent_idle:
  "\<not> rebuilding s \<Longrightarrow> step FileEvent s =
     Some (s\<lparr>rebuilding := True, tasks := tasks s @ [AwaitLoadConfig],
             trace := trace s @ [LogRebuilding, CallLoadConfig]\<rparr>)"
  by (simp add: step_def rebuild_def)

lemma step_Settle_single:
  assumes "tasks s = [t]"
  shows "step (Settle 0 r) s = Some (resume t r (s\<lparr>tasks := []\<rparr>))"
  using assms by (simp add: step_def)

lemma resume_continue:
  "resume AwaitLoadConfig Resolved s = s\<lparr>tasks := tasks s @ [AwaitBuild], trace := trace s @ [CallBuild]\<rparr>"
  by (simp add: resume_def)

lemma resume_ends:
  assumes "ends t r"
  shows "resume t r s =
     (if needsRebuild s
      then s\<lparr>rebuilding := True, needsRebuild := False, tasks := tasks s @ [AwaitLoadConfig],
             trace := trace s @ outcomeTrace t r @ [LogRebuilding, CallLoadConfig]\<rparr>
      else s\<lparr>rebuilding := False, trace := trace s @ outcomeTrace t r\<rparr>)"
  using assms
  by (cases t; cases r) (simp_all add: resume_def afterTry_def rebuild_def Let_def)

lemma flagsAgree_step:
  assumes "flagsAgree s" "step e s = Some s'"
  shows "flagsAgree s'"
proof (cases e)
  case FileEvent
  with assms show ?thesis
    by (cases "rebuilding s") (auto simp: flagsAgree_def step_def rebuild_def)
next
  case (Settle i r)
  with assms(2) have i: "i < length (tasks s)" by (auto simp: step_def split: if_splits)
  with assms(1) obtain t where t: "tasks s = [t]" "i = 0"
    by (cases "tasks s") (auto simp: flagsAgree_def)
  with assms(2) Settle have s': "s' = resume t r (s\<lparr>tasks := []\<rparr>)" by (simp add: step_def)
  show ?thesis
  proof (cases "ends t r")
    case True
    from assms(1) show ?thesis unfolding s' resume_ends[OF True] by (auto simp: flagsAgree_def)
  next
    case False
    then have "t = AwaitLoadConfig" "r = Resolved" by (cases t; cases r; simp)+
    with assms(1) t show ?thesis unfolding s' by (auto simp: flagsAgree_def resume_continue)
  qed
qed

lemma flagsAgree_run: "flagsAgree s \<Longrightarrow> run es s = Some s' \<Longrightarrow> flagsAgree s'"
proof (induction es arbitrary: s)
  case Nil
  then show ?case by simp
next
  case (Cons e es)
  then show ?case by (auto split: option.splits dest: flagsAgree_step)
qed

lemma run_append: "run (es @ fs) s = (case run es s of None \<Rightarrow> None | Some s' \<Rightarrow> run fs s')"
  by (induction es arbitrary: s) (auto split: option.splits)

lemma run_FileEvents_busy:
  "rebuilding s \<Longrightarrow> run (replicate n FileEvent) s = Some (if n = 0 then s else s\<lparr>needsRebuild := True\<rparr>)"
proof (induction n arbitrary: s)
  case 0
  then show ?case by simp
next
  case (Suc n)
  have "rebuilding (s\<lparr>needsRebuild := True\<rparr>)" using Suc.prems by simp
  from Suc.IH[OF this] Suc.prems show ?case
    by (simp add: step_FileEvent_busy)
qed

lemma count_outcomeTrace: "count_list (outcomeTrace t r) LogRebuilding = 0"
  by (cases t; cases r) simp_all

lemma attempts_resume_ends:
  assumes "ends t r"
  shows "attempts (resume t r s) = attempts s + (if needsRebuild s then 1 else 0)"
  unfolding resume_ends[OF assms] by (simp add: attempts_def count_outcomeTrace)

lemma owed_step_Settle:
  assumes "flagsAgree s" "step (Settle i r) s = Some s'"
  shows "owed s' = owed s"
proof -
  from assms(2) have i: "i < length (tasks s)" by (auto simp: step_def split: if_splits)
  with assms(1) obtain t where t: "tasks s = [t]" "i = 0"
    by (cases "tasks s") (auto simp: flagsAgree_def)
  with assms(2) have s': "s' = resume t r (s\<lparr>tasks := []\<rparr>)" by (simp add: step_def)
  show ?thesis
  proof (cases "ends t r")
    case True
    have "needsRebuild s' = False" unfolding s' resume_ends[OF True] by simp
    moreover have "attempts s' = attempts s + (if needsRebuild s then 1 else 0)"
      unfolding s' using attempts_resume_ends[OF True, of "s\<lparr>tasks := []\<rparr>"]
      by (simp add: attempts_def)
    ultimately show ?thesis by (simp add: owed_def)
  next
    case False
    then have "t = AwaitLoadConfig" "r = Resolved" by (cases t; cases r; simp)+
    then show ?thesis unfolding s' by (simp add: owed_def attempts_def resume_continue)
  qed
qed

lemma owed_run_settles:
  "flagsAgree s \<Longrightarrow> \<forall>e\<in>set ss. e \<noteq> FileEvent \<Longrightarrow> run ss s = Some s' \<Longrightarrow> owed s' = owed s"
proof (induction ss arbitrary: s)
  case Nil
  then show ?case by simp
next
  case (Cons e ss)
  from Cons.prems(3) obtain s1 where s1: "step e s = Some s1" "run ss s1 = Some s'"
    by (auto split: option.splits)
  from Cons.prems(2) obtain i r where e: "e = Settle i r" by (cases e) auto
  have "flagsAgree s1" using Cons.prems(1) s1(1) by (rule flagsAgree_step)
  moreover have "\<forall>e\<in>set ss. e \<noteq> FileEvent" using Cons.prems(2) by simp
  ultimately have "owed s' = owed s1" using s1(2) by (rule Cons.IH)
  also have "owed s1 = owed s" using Cons.prems(1) s1(1) unfolding e by (rule owed_step_Settle)
  finally show ?case .
qed

lemma run_two_events:
  "run [FileEvent, FileEvent] initial =
     Some \<lparr>rebuilding = True, needsRebuild = True, tasks = [AwaitLoadConfig],
           trace = [LogRebuilding, CallLoadConfig]\<rparr>"
  by (simp add: step_def rebuild_def initial_def)

lemma two_events_two_attempts:
  assumes "\<forall>e\<in>set ss. e \<noteq> FileEvent" and "run ([FileEvent, FileEvent] @ ss) initial = Some s'"
  shows "attempts s' \<le> 2 \<and> (tasks s' = [] \<longrightarrow> attempts s' = 2)"
proof -
  let ?s2 = "\<lparr>rebuilding = True, needsRebuild = True, tasks = [AwaitLoadConfig],
           trace = [LogRebuilding, CallLoadConfig]\<rparr>"
  from assms(2) have r: "run ss ?s2 = Some s'" unfolding run_append run_two_events by simp
  have i2: "flagsAgree ?s2" by (simp add: flagsAgree_def)
  from owed_run_settles[OF i2 assms(1) r] have o: "owed s' = 2"
    by (simp add: owed_def attempts_def)
  from flagsAgree_run[OF i2 r] have "tasks s' = [] \<longrightarrow> \<not> needsRebuild s'" by (auto simp: flagsAgree_def)
  with o show ?thesis by (auto simp: owed_def split: if_splits)
qed

lemma run_scenario:
  "run [FileEvent, FileEvent, Settle 0 Resolved, Settle 0 Resolved, Settle 0 Resolved,
        Settle 0 Resolved] initial =
     Some \<lparr>rebuilding = False, needsRebuild = False, tasks = [],
           trace = [LogRebuilding, CallLoadConfig, CallBuild, LogRebuildComplete, NotifyClients,
                    LogRebuilding, CallLoadConfig, CallBuild, LogRebuildComplete, NotifyClients]\<rparr>"
  by (simp add: step_def rebuild_def initial_def resume_def afterTry_def)

lemma run_events_then_settle:
  assumes "flagsAgree s" "tasks s = [t]" "ends t r"
  shows "run (replicate n FileEvent @ [Settle 0 r]) s =
     Some (resume t r (s\<lparr>needsRebuild := needsRebuild s \<or> 0 < n, tasks := []\<rparr>))"
proof -
  from assms(1,2) have b: "rebuilding s" by (simp add: flagsAgree_def)
  show ?thesis
  proof (cases "n = 0")
    case True
    with assms(2) show ?thesis by (simp add: step_def)
  next
    case False
    then have "run (replicate n FileEvent) s = Some (s\<lparr>needsRebuild := True\<rparr>)"
      using run_FileEvents_busy[OF b, of n] by simp
    with False assms(2) show ?thesis by (simp add: run_append step_def)
  qed
qed

text \<open>
  Claim C1. In every state \<open>s\<close> that the coordinator reaches from its initial state by
  any sequence of watcher events and settlements: at most one rebuild is in flight.
  While one is in flight, a watcher event only sets \<^verbatim>\<open>needsRebuild\<close>, and so do any
  number \<open>n\<close> of them; when the settlement that ends the attempt in flight arrives
  after them, the trace grows by the outcome of that attempt followed, exactly when a
  request was pending, by the start of one follow-up attempt, which is then the only one
  in flight. After two watcher events delivered before anything settles, every
  continuation by settlements has started at most two attempts, exactly two once nothing
  is in flight; when every promise resolves, two attempts and two builds have run.
\<close>

theorem rebuild_coalesces:
  assumes "run es initial = Some s"
  shows "length (tasks s) \<le> 1 \<and>
    (tasks s \<noteq> [] \<longrightarrow>
       step FileEvent s = Some (s\<lparr>needsRebuild := True\<rparr>) \<and>
       run (replicate n FileEvent) s = Some (if n = 0 then s else s\<lparr>needsRebuild := True\<rparr>) \<and>
       (\<forall>t r. tasks s = [t] \<and> ends t r \<longrightarrow>
          (\<exists>s'. run (replicate n FileEvent @ [Settle 0 r]) s = Some s' \<and>
             trace s' = trace s @ outcomeTrace t r @
               (if needsRebuild s \<or> 0 < n then [LogRebuilding, CallLoadConfig] else []) \<and>
             tasks s' = (if needsRebuild s \<or> 0 < n then [AwaitLoadConfig] else []) \<and>
             attempts s' = attempts s + (if needsRebuild s \<or> 0 < n then 1 else 0)))) \<and>
    (\<forall>ss s'. (\<forall>e\<in>set ss. e \<noteq> FileEvent) \<and>
         run ([FileEvent, FileEvent] @ ss) initial = Some s' \<longrightarrow>
       attempts s' \<le> 2 \<and> (tasks s' = [] \<longrightarrow> attempts s' = 2)) \<and>
    (\<exists>s'. run [FileEvent, FileEvent, Settle 0 Resolved, Settle 0 Resolved, Settle 0 Resolved,
              Settle 0 Resolved] initial = Some s' \<and>
          tasks s' = [] \<and> \<not> rebuilding s' \<and> \<not> needsRebuild s' \<and>
          attempts s' = 2 \<and> builds s' = 2)"
proof -
  from flagsAgree_run[OF flagsAgree_initial assms] have i: "flagsAgree s" .
  then have 1: "length (tasks s) \<le> 1" by (simp add: flagsAgree_def)
  have 2: "step FileEvent s = Some (s\<lparr>needsRebuild := True\<rparr>)" if "tasks s \<noteq> []"
    using i that by (simp add: flagsAgree_def step_FileEvent_busy)
  have 3: "run (replicate n FileEvent) s = Some (if n = 0 then s else s\<lparr>needsRebuild := True\<rparr>)"
    if "tasks s \<noteq> []"
    using i that by (simp add: flagsAgree_def run_FileEvents_busy)
  have 4: "\<exists>s'. run (replicate n FileEvent @ [Settle 0 r]) s = Some s' \<and>
             trace s' = trace s @ outcomeTrace t r @
               (if needsRebuild s \<or> 0 < n then [LogRebuilding, CallLoadConfig] else []) \<and>
             tasks s' = (if needsRebuild s \<or> 0 < n then [AwaitLoadConfig] else []) \<and>
             attempts s' = attempts s + (if needsRebuild s \<or> 0 < n then 1 else 0)"
    if "tasks s = [t] \<and> ends t r" for t r
  proof -
    from that have t: "tasks s = [t]" and e: "ends t r" by simp_all
    let ?s' = "resume t r (s\<lparr>needsRebuild := needsRebuild s \<or> 0 < n, tasks := []\<rparr>)"
    have "run (replicate n FileEvent @ [Settle 0 r]) s = Some ?s'"
      using i t e by (rule run_events_then_settle)
    moreover have "trace ?s' = trace s @ outcomeTrace t r @
               (if needsRebuild s \<or> 0 < n then [LogRebuilding, CallLoadConfig] else [])"
      unfolding resume_ends[OF e] by simp
    moreover have "tasks ?s' = (if needsRebuild s \<or> 0 < n then [AwaitLoadConfig] else [])"
      unfolding resume_ends[OF e] by simp
    moreover have "attempts ?s' = attempts s + (if needsRebuild s \<or> 0 < n then 1 else 0)"
      unfolding attempts_resume_ends[OF e] by (simp add: attempts_def)
    ultimately show ?thesis by blast
  qed
  have 5: "attempts s' \<le> 2 \<and> (tasks s' = [] \<longrightarrow> attempts s' = 2)"
    if "(\<forall>e\<in>set ss. e \<noteq> FileEvent) \<and> run ([FileEvent, FileEvent] @ ss) initial = Some s'"
    for ss s'
    using that two_events_two_attempts by blast
  have 6: "\<exists>s'. run [FileEvent, FileEvent, Settle 0 Resolved, Settle 0 Resolved, Settle 0 Resolved,
              Settle 0 Resolved] initial = Some s' \<and>
          tasks s' = [] \<and> \<not> rebuilding s' \<and> \<not> needsRebuild s' \<and>
          attempts s' = 2 \<and> builds s' = 2"
    unfolding run_scenario by (simp add: attempts_def builds_def)
  from 1 2 3 4 5 6 show ?thesis by blast
qed

theorem rebuild_coalesces_witness:
  "run [FileEvent] initial =
     Some \<lparr>rebuilding = True, needsRebuild = False, tasks = [AwaitLoadConfig],
           trace = [LogRebuilding, CallLoadConfig]\<rparr> \<and>
   step FileEvent \<lparr>rebuilding = True, needsRebuild = False, tasks = [AwaitLoadConfig],
           trace = [LogRebuilding, CallLoadConfig]\<rparr> =
     Some \<lparr>rebuilding = True, needsRebuild = True, tasks = [AwaitLoadConfig],
           trace = [LogRebuilding, CallLoadConfig]\<rparr> \<and>
   ends AwaitLoadConfig Rejected \<and>
   (\<exists>s'. run (replicate 3 FileEvent @ [Settle 0 Rejected])
             \<lparr>rebuilding = True, needsRebuild = False, tasks = [AwaitLoadConfig],
              trace = [LogRebuilding, CallLoadConfig]\<rparr> = Some s' \<and>
         trace s' = [LogRebuilding, CallLoadConfig, LogBuildFailed, LogRebuilding, CallLoadConfig] \<and>
         tasks s' = [AwaitLoadConfig] \<and> attempts s' = 2) \<and>
   run ([FileEvent, FileEvent] @ [Settle 0 Resolved, Settle 0 Rejected, Settle 0 Rejected]) initial =
     Some \<lparr>rebuilding = False, needsRebuild = False, tasks = [],
           trace = [LogRebuilding, CallLoadConfig, CallBuild, LogBuildFailed, LogRebuilding,
                    CallLoadConfig, LogBuildFailed]\<rparr> \<and>
   attempts \<lparr>rebuilding = False, needsRebuild = False, tasks = [],
           trace = [LogRebuilding, CallLoadConfig, CallBuild, LogBuildFailed, LogRebuilding,
                    CallLoadConfig, LogBuildFailed]\<rparr> = 2"
proof -
  let ?s = "\<lparr>rebuilding = True, needsRebuild = False, tasks = [AwaitLoadConfig],
           trace = [LogRebuilding, CallLoadConfig]\<rparr>"
  let ?f = "\<lparr>rebuilding = False, needsRebuild = False, tasks = [],
           trace = [LogRebuilding, CallLoadConfig, CallBuild, LogBuildFailed, LogRebuilding,
                    CallLoadConfig, LogBuildFailed]\<rparr>"
  have r: "run [FileEvent] initial = Some ?s"
    by (simp add: step_def rebuild_def initial_def)
  have e: "ends AwaitLoadConfig Rejected" by simp
  note w = rebuild_coalesces[OF r, of 3]
  from w have 1: "step FileEvent ?s = Some (?s\<lparr>needsRebuild := True\<rparr>)"
    and 2: "\<forall>t r. tasks ?s = [t] \<and> ends t r \<longrightarrow>
          (\<exists>s'. run (replicate 3 FileEvent @ [Settle 0 r]) ?s = Some s' \<and>
             trace s' = trace ?s @ outcomeTrace t r @
               (if needsRebuild ?s \<or> 0 < (3::nat) then [LogRebuilding, CallLoadConfig] else []) \<and>
             tasks s' = (if needsRebuild ?s \<or> 0 < (3::nat) then [AwaitLoadConfig] else []) \<and>
             attempts s' = attempts ?s + (if needsRebuild ?s \<or> 0 < (3::nat) then 1 else 0))"
    by simp_all
  from 2 e obtain s' where s': "run (replicate 3 FileEvent @ [Settle 0 Rejected]) ?s = Some s'"
    "trace s' = trace ?s @ outcomeTrace AwaitLoadConfig Rejected @ [LogRebuilding, CallLoadConfig]"
    "tasks s' = [AwaitLoadConfig]" "attempts s' = attempts ?s + 1"
    by fastforce
  from s' have 3: "trace s' = [LogRebuilding, CallLoadConfig, LogBuildFailed, LogRebuilding, CallLoadConfig]"
    "attempts s' = 2" by (simp_all add: attempts_def)
  have f: "run ([FileEvent, FileEvent] @ [Settle 0 Resolved, Settle 0 Rejected, Settle 0 Rejected])
      initial = Some ?f"
    by (simp add: step_def rebuild_def initial_def resume_def afterTry_def)
  have b: "\<forall>e\<in>set [Settle 0 Resolved, Settle 0 Rejected, Settle 0 Rejected]. e \<noteq> FileEvent"
    by simp
  from w have "\<forall>ss s'. (\<forall>e\<in>set ss. e \<noteq> FileEvent) \<and>
         run ([FileEvent, FileEvent] @ ss) initial = Some s' \<longrightarrow>
       attempts s' \<le> 2 \<and> (tasks s' = [] \<longrightarrow> attempts s' = 2)"
    by simp
  with b f have 4: "attempts ?f = 2" by fastforce
  from r 1 e s'(1,3) 3 f 4 show ?thesis by auto
qed

text \<open>
  Claim C5. In every reachable state with an attempt in flight, the rejection of the
  promise it awaits (\<^verbatim>\<open>loadConfig\<close> or \<^verbatim>\<open>build\<close> threw) is handled inside
  \<^verbatim>\<open>rebuild\<close>: the step yields a state; the failure is logged; nothing is broadcast;
  \<^verbatim>\<open>rebuilding\<close> and \<^verbatim>\<open>needsRebuild\<close> are cleared, and exactly when
  \<^verbatim>\<open>needsRebuild\<close> was set, \<^verbatim>\<open>rebuild()\<close> is called on the cleared state and
  starts one follow-up attempt. The flags and the attempt in flight afterwards are those
  that the successful end of a build leaves.
\<close>

theorem rebuild_failure_recovers:
  assumes "run es initial = Some s" and "tasks s = [t]"
  shows "\<exists>s'. step (Settle 0 Rejected) s = Some s' \<and>
      s' = (let cleared = s\<lparr>rebuilding := False, needsRebuild := False, tasks := [],
                             trace := trace s @ [LogBuildFailed]\<rparr>
            in if needsRebuild s then rebuild cleared else cleared) \<and>
      trace s' = trace s @ [LogBuildFailed] @
         (if needsRebuild s then [LogRebuilding, CallLoadConfig] else []) \<and>
      NotifyClients \<notin> set (drop (length (trace s)) (trace s')) \<and>
      \<not> needsRebuild s' \<and> (rebuilding s' \<longleftrightarrow> needsRebuild s) \<and>
      tasks s' = (if needsRebuild s then [AwaitLoadConfig] else []) \<and>
      attempts s' = attempts s + (if needsRebuild s then 1 else 0) \<and>
      (\<exists>s''. step (Settle 0 Resolved) (s\<lparr>tasks := [AwaitBuild]\<rparr>) = Some s'' \<and>
          rebuilding s'' = rebuilding s' \<and> needsRebuild s'' = needsRebuild s' \<and>
          tasks s'' = tasks s' \<and>
          trace s'' = trace s @ [LogRebuildComplete, NotifyClients] @
            (if needsRebuild s then [LogRebuilding, CallLoadConfig] else []))"
proof -
  from flagsAgree_run[OF flagsAgree_initial assms(1)] have i: "flagsAgree s" .
  have e: "ends t Rejected" by (cases t) simp_all
  have o: "outcomeTrace t Rejected = [LogBuildFailed]" by (cases t) simp_all
  let ?s' = "resume t Rejected (s\<lparr>tasks := []\<rparr>)"
  have 1: "step (Settle 0 Rejected) s = Some ?s'" using assms(2) by (rule step_Settle_single)
  have 2: "?s' = (let cleared = s\<lparr>rebuilding := False, needsRebuild := False, tasks := [],
                             trace := trace s @ [LogBuildFailed]\<rparr>
            in if needsRebuild s then rebuild cleared else cleared)"
    using i assms(2) unfolding resume_ends[OF e] o
    by (auto simp: Let_def rebuild_def flagsAgree_def)
  have 3: "trace ?s' = trace s @ [LogBuildFailed] @
         (if needsRebuild s then [LogRebuilding, CallLoadConfig] else [])"
    unfolding resume_ends[OF e] o by simp
  have 4: "NotifyClients \<notin> set (drop (length (trace s)) (trace ?s'))"
    unfolding 3 by simp
  have 5: "\<not> needsRebuild ?s'" "rebuilding ?s' \<longleftrightarrow> needsRebuild s"
    "tasks ?s' = (if needsRebuild s then [AwaitLoadConfig] else [])"
    unfolding resume_ends[OF e] by simp_all
  have 6: "attempts ?s' = attempts s + (if needsRebuild s then 1 else 0)"
    unfolding attempts_resume_ends[OF e] by (simp add: attempts_def)
  let ?n = "resume AwaitBuild Resolved (s\<lparr>tasks := []\<rparr>)"
  have e2: "ends AwaitBuild Resolved" by simp
  have 7: "step (Settle 0 Resolved) (s\<lparr>tasks := [AwaitBuild]\<rparr>) = Some ?n"
    by (simp add: step_def)
  have 8: "rebuilding ?n = rebuilding ?s'" "needsRebuild ?n = needsRebuild ?s'"
    "tasks ?n = tasks ?s'"
    "trace ?n = trace s @ [LogRebuildComplete, NotifyClients] @
            (if needsRebuild s then [LogRebuilding, CallLoadConfig] else [])"
    unfolding resume_ends[OF e] resume_ends[OF e2] by simp_all
  from 1 2 3 4 5 6 7 8 show ?thesis by blast
qed

theorem rebuild_failure_recovers_witness:
  "run [FileEvent, FileEvent, Settle 0 Resolved] initial =
     Some \<lparr>rebuilding = True, needsRebuild = True, tasks = [AwaitBuild],
           trace = [LogRebuilding, CallLoadConfig, CallBuild]\<rparr> \<and>
   step (Settle 0 Rejected) \<lparr>rebuilding = True, needsRebuild = True, tasks = [AwaitBuild],
           trace = [LogRebuilding, CallLoadConfig, CallBuild]\<rparr> =
     Some \<lparr>rebuilding = True, needsRebuild = False, tasks = [AwaitLoadConfig],
           trace = [LogRebuilding, CallLoadConfig, CallBuild, LogBuildFailed, LogRebuilding,
                    CallLoadConfig]\<rparr>"
proof -
  let ?s = "\<lparr>rebuilding = True, needsRebuild = True, tasks = [AwaitBuild],
           trace = [LogRebuilding, CallLoadConfig, CallBuild]\<rparr>"
  have r: "run [FileEvent, FileEvent, Settle 0 Resolved] initial = Some ?s"
    by (simp add: step_def rebuild_def initial_def resume_def)
  have t: "tasks ?s = [AwaitBuild]" by simp
  from rebuild_failure_recovers[OF r t]
  have "step (Settle 0 Rejected) ?s =
     Some (let cleared = ?s\<lparr>rebuilding := False, needsRebuild := False, tasks := [],
                             trace := trace ?s @ [LogBuildFailed]\<rparr>
            in if needsRebuild ?s then rebuild cleared else cleared)"
    by auto
  then have "step (Settle 0 Rejected) ?s =
     Some \<lparr>rebuilding = True, needsRebuild = False, tasks = [AwaitLoadConfig],
           trace = [LogRebuilding, CallLoadConfig, CallBuild, LogBuildFailed, LogRebuilding,
                    CallLoadConfig]\<rparr>"
    by (simp add: rebuild_def)
  with r show ?thesis by blast
qed

section \<open>Properties of loadConfig\<close>

text \<open>
  Claim C2 on the code. \<^verbatim>\<open>rebuild\<close> calls \<^verbatim>\<open>loadConfig\<close> at the start of every
  attempt, but the call imports the same module specifier as the load at start-up did:
  after the configuration file is edited, \<^verbatim>\<open>loadConfig\<close> still returns the
  configuration that the file held when the process started, not the edited one that a
  fresh process would load.
\<close>

theorem loadConfig_stale:
  assumes "config \<noteq> edited"
  shows "fst (loadConfig path (freshRuntime path config)) = Inr config \<and>
     fst (loadConfig path (editFile path edited (snd (loadConfig path (freshRuntime path config)))))
       = Inr config \<and>
     fst (loadConfig path (editFile path edited (snd (loadConfig path (freshRuntime path config)))))
       \<noteq> Inr edited \<and>
     fst (loadConfig path (freshRuntime path edited)) = Inr edited"
  using assms
  by (simp add: loadConfig_def dynamicImport_def freshRuntime_def editFile_def)

theorem loadConfig_stale_witness:
  "(1::nat) \<noteq> 2 \<and>
   fst (loadConfig (js ''/p/userscript.config.ts'')
      (editFile (js ''/p/userscript.config.ts'') 2
         (snd (loadConfig (js ''/p/userscript.config.ts'')
            (freshRuntime (js ''/p/userscript.config.ts'') (1::nat)))))) = Inr 1"
  using loadConfig_stale[of "1::nat" 2 "js ''/p/userscript.config.ts''"] by simp

section \<open>Properties of the client's message handler\<close>

lemmas handler_eval = emit_def invoke_def andThen_def tryCatch_def

text \<open>
  Claim C7, as the code has it. For every reload message whose code is not empty: the
  handler logs, then calls the cleanup function when one is registered, logging a
  warning and going on when it throws, then evaluates the received code, logging an
  error when that throws; no exception leaves the handler and the handler does not
  close the channel. For every page, a reload message with empty code is ignored: the
  handler has no effect at all, calls neither the cleanup function nor the evaluation,
  and no exception leaves it.
\<close>

theorem onmessage_reload:
  "(code \<noteq> [] \<longrightarrow>
      snd (onmessage page (Data (js ''reload'') code)) = None \<and>
      WsClose \<notin> set (fst (onmessage page (Data (js ''reload'') code))) \<and>
      fst (onmessage page (Data (js ''reload'') code)) =
        [ConsoleLog (js ''[USX] Hot reloading userscript...'')] @
        (case cleanup page of
           None \<Rightarrow> []
         | Some Returns \<Rightarrow> [CallCleanup]
         | Some (Throws x) \<Rightarrow> [CallCleanup, ConsoleWarn x]) @
        [Eval code] @
        (case evalCode page code of
           Returns \<Rightarrow> [ConsoleLog (js ''[USX] '' @ [0x2713] @ js '' Hot reload complete'')]
         | Throws x \<Rightarrow> [ConsoleError x])) \<and>
   onmessage page (Data (js ''reload'') []) = ([], None)"
proof (intro conjI impI)
  assume "code \<noteq> []"
  then show "snd (onmessage page (Data (js ''reload'') code)) = None"
    by (auto simp: handler_eval split: option.splits call.splits)
  assume "code \<noteq> []"
  then show "WsClose \<notin> set (fst (onmessage page (Data (js ''reload'') code)))"
    by (auto simp: handler_eval split: option.splits call.splits)
  assume "code \<noteq> []"
  then show "fst (onmessage page (Data (js ''reload'') code)) =
        [ConsoleLog (js ''[USX] Hot reloading userscript...'')] @
        (case cleanup page of
           None \<Rightarrow> []
         | Some Returns \<Rightarrow> [CallCleanup]
         | Some (Throws x) \<Rightarrow> [CallCleanup, ConsoleWarn x]) @
        [Eval code] @
        (case evalCode page code of
           Returns \<Rightarrow> [ConsoleLog (js ''[USX] '' @ [0x2713] @ js '' Hot reload complete'')]
         | Throws x \<Rightarrow> [ConsoleError x])"
    by (auto simp: handler_eval split: option.splits call.splits)
next
  show "onmessage page (Data (js ''reload'') []) = ([], None)" by simp
qed

theorem onmessage_reload_witness:
  "js ''f();'' \<noteq> [] \<and>
   onmessage \<lparr>cleanup = Some (Throws (1::nat)), evalCode = (\<lambda>c. Throws 2)\<rparr>
       (Data (js ''reload'') (js ''f();''))
     = ([ConsoleLog (js ''[USX] Hot reloading userscript...''), CallCleanup, ConsoleWarn 1,
         Eval (js ''f();''), ConsoleError 2], None) \<and>
   onmessage \<lparr>cleanup = Some (Throws (1::nat)), evalCode = (\<lambda>c. Throws 2)\<rparr>
       (Data (js ''reload'') []) = ([], None)"
proof -
  have n: "js ''f();'' \<noteq> []" by (simp add: js_def)
  from onmessage_reload[of "js ''f();''" "\<lparr>cleanup = Some (Throws (1::nat)), evalCode = (\<lambda>c. Throws 2)\<rparr>"]
  show ?thesis using n by (simp add: prod_eq_iff)
qed

text \<open>
  Claim C7 as stated covers every payload of type reload. A reload message with empty
  code is ignored by the guard \<^verbatim>\<open>data.type === 'reload' && data.code\<close>: the registered
  cleanup function is not called.
\<close>

theorem onmessage_empty_code_counterexample:
  "CallCleanup \<notin> set (fst (onmessage \<lparr>cleanup = Some Returns, evalCode = (\<lambda>c. Returns :: unit call)\<rparr>
       (Data (js ''reload'') []))) \<and>
   fst (onmessage \<lparr>cleanup = Some Returns, evalCode = (\<lambda>c. Returns :: unit call)\<rparr>
       (Data (js ''reload'') [])) = []"
  by simp

end
